theory Spec2Isabelle
  imports Main "HOL-Library.Word" "HOL-Library.Multiset"
begin

unbundle bit_operations_syntax

section \<open>Go library functions used by the analyzer\<close>

text \<open>
  The analyzer (internal/analyze/analyze.go) calls \<^verbatim>\<open>utf8.DecodeRune\<close>, \<^verbatim>\<open>utf8.FullRune\<close>
  and \<^verbatim>\<open>unicode.IsSpace\<close> of the Go standard library. They are not part of the
  repository; they are transcribed here from the library (unicode/utf8/utf8.go and
  unicode/graphic.go, unicode/tables.go), keeping its names. A byte is Go's \<^verbatim>\<open>uint8\<close>,
  a rune is Go's \<^verbatim>\<open>int32\<close>.
\<close>

type_synonym byte = "8 word"
type_synonym rune = "32 word"

definition RuneError :: rune where "RuneError = 0xFFFD"

definition maskx :: byte where "maskx = 0x3F"
definition mask2 :: byte where "mask2 = 0x1F"
definition mask3 :: byte where "mask3 = 0x0F"
definition mask4 :: byte where "mask4 = 0x07"

definition locb :: byte where "locb = 0x80"
definition hicb :: byte where "hicb = 0xBF"

text \<open>The entries of the table \<^verbatim>\<open>first\<close>: high nibble an index into \<^verbatim>\<open>acceptRanges\<close>
  (or F for the one-byte cases), low nibble the length of the encoding.\<close>

definition xx :: byte where "xx = 0xF1"
definition as :: byte where "as = 0xF0"
definition s1 :: byte where "s1 = 0x02"
definition s2 :: byte where "s2 = 0x13"
definition s3 :: byte where "s3 = 0x03"
definition s4 :: byte where "s4 = 0x23"
definition s5 :: byte where "s5 = 0x34"
definition s6 :: byte where "s6 = 0x04"
definition s7 :: byte where "s7 = 0x44"

text \<open>The 256-entry array \<^verbatim>\<open>first\<close>, written by the ranges of its rows:
  0x00-0x7F as; 0x80-0xC1 xx; 0xC2-0xDF s1; 0xE0 s2; 0xE1-0xEC s3; 0xED s4; 0xEE-0xEF s3;
  0xF0 s5; 0xF1-0xF3 s6; 0xF4 s7; 0xF5-0xFF xx.\<close>

definition first :: "byte \<Rightarrow> byte" where
  "first b =
     (if b < 0x80 then as
      else if b < 0xC2 then xx
      else if b < 0xE0 then s1
      else if b = 0xE0 then s2
      else if b < 0xED then s3
      else if b = 0xED then s4
      else if b < 0xF0 then s3
      else if b = 0xF0 then s5
      else if b < 0xF4 then s6
      else if b = 0xF4 then s7
      else xx)"

record acceptRange =
  lo :: byte
  hi :: byte

text \<open>\<^verbatim>\<open>acceptRanges\<close> has 16 entries; those after the fifth are zero values.\<close>

definition acceptRanges :: "nat \<Rightarrow> acceptRange" where
  "acceptRanges k =
     (if k = 0 then \<lparr>lo = locb, hi = hicb\<rparr>
      else if k = 1 then \<lparr>lo = 0xA0, hi = hicb\<rparr>
      else if k = 2 then \<lparr>lo = locb, hi = 0x9F\<rparr>
      else if k = 3 then \<lparr>lo = 0x90, hi = hicb\<rparr>
      else if k = 4 then \<lparr>lo = locb, hi = 0x8F\<rparr>
      else \<lparr>lo = 0, hi = 0\<rparr>)"

definition FullRune :: "byte list \<Rightarrow> bool" where
  "FullRune p =
     (let n = length p in
      if n = 0 then False
      else
        let x = first (p ! 0) in
        if n \<ge> unat (x AND 7) then True
        else
          let accept = acceptRanges (unat (drop_bit 4 x)) in
          if n > 1 \<and> (p ! 1 < lo accept \<or> hi accept < p ! 1) then True
          else if n > 2 \<and> (p ! 2 < locb \<or> hicb < p ! 2) then True
          else False)"

text \<open>\<^verbatim>\<open>DecodeRune\<close> returns the rune and its width in bytes. For the one-byte cases
  the library computes \<^verbatim>\<open>mask := rune(x) << 31 >> 31\<close> (all ones for \<^verbatim>\<open>xx\<close>, zero for
  \<^verbatim>\<open>as\<close>) and returns \<^verbatim>\<open>rune(p[0])&^mask | RuneError&mask\<close>.\<close>

definition DecodeRune :: "byte list \<Rightarrow> rune \<times> nat" where
  "DecodeRune p =
     (let n = length p in
      if n < 1 then (RuneError, 0)
      else
        let p0 = p ! 0; x = first p0 in
        if x \<ge> as then
          (let mask = signed_drop_bit 31 (push_bit 31 (ucast x :: rune)) in
           ((ucast p0 AND NOT mask) OR (RuneError AND mask), 1))
        else
          let sz = unat (x AND 7); accept = acceptRanges (unat (drop_bit 4 x)) in
          if n < sz then (RuneError, 1)
          else
            let b1 = p ! 1 in
            if b1 < lo accept \<or> hi accept < b1 then (RuneError, 1)
            else if sz \<le> 2 then
              (push_bit 6 (ucast (p0 AND mask2)) OR ucast (b1 AND maskx), 2)
            else
              let b2 = p ! 2 in
              if b2 < locb \<or> hicb < b2 then (RuneError, 1)
              else if sz \<le> 3 then
                (push_bit 12 (ucast (p0 AND mask3)) OR push_bit 6 (ucast (b1 AND maskx))
                   OR ucast (b2 AND maskx), 3)
              else
                let b3 = p ! 3 in
                if b3 < locb \<or> hicb < b3 then (RuneError, 1)
                else
                  (push_bit 18 (ucast (p0 AND mask4)) OR push_bit 12 (ucast (b1 AND maskx))
                     OR push_bit 6 (ucast (b2 AND maskx)) OR ucast (b3 AND maskx), 4))"

text \<open>\<^verbatim>\<open>unicode.IsSpace\<close>: in Latin-1 the eight listed characters; above Latin-1 the
  members of the table \<^verbatim>\<open>White_Space\<close> (U+1680, U+2000..U+200A, U+2028, U+2029, U+202F,
  U+205F, U+3000). The comparison is on \<^verbatim>\<open>uint32(r)\<close>.\<close>

definition MaxLatin1 :: rune where "MaxLatin1 = 0xFF"

definition IsSpace :: "rune \<Rightarrow> bool" where
  "IsSpace r =
     (if r \<le> MaxLatin1 then
        r = 0x09 \<or> r = 0x0A \<or> r = 0x0B \<or> r = 0x0C \<or> r = 0x0D \<or> r = 0x20
          \<or> r = 0x85 \<or> r = 0xA0
      else
        r = 0x1680 \<or> (0x2000 \<le> r \<and> r \<le> 0x200A) \<or> r = 0x2028 \<or> r = 0x2029
          \<or> r = 0x202F \<or> r = 0x205F \<or> r = 0x3000)"

section \<open>The file analyzer (internal/analyze/analyze.go)\<close>

text \<open>Go's \<^verbatim>\<open>int\<close> and \<^verbatim>\<open>int64\<close> are modelled as \<open>int\<close>: every counter below is bounded by
  the number of bytes read, so 64-bit overflow is out of reach.\<close>

record FileStats =
  Name :: string
  Ext :: string
  Kind :: string
  SizeBytes :: int
  Size :: string
  Lines :: int
  Words :: int
  Chars :: int
  ModTime :: string
  ModUnix :: int
  HasError :: bool
  ErrorText :: string

subsection \<open>What the operating system answers\<close>

text \<open>\<^verbatim>\<open>AnalyzeFile\<close> sees a path only through \<^verbatim>\<open>os.Stat\<close>, \<^verbatim>\<open>os.Open\<close>, one
  \<^verbatim>\<open>f.ReadAt(sniff, 0)\<close> and a sequence of \<^verbatim>\<open>f.Read(buf)\<close>. A file is modelled by
  the answers to these calls. An error is carried as its text (\<^verbatim>\<open>err.Error()\<close>).\<close>

datatype read_err = ErrNil | EOF | ErrIO string

record FileInfo =
  fi_Size :: int
  fi_ModTime :: string  \<comment> \<open>\<^verbatim>\<open>info.ModTime().Format("2006-01-02 15:04:05")\<close>\<close>
  fi_ModUnix :: int

record os_file =
  stat_answer :: "string + FileInfo"  \<comment> \<open>\<^verbatim>\<open>os.Stat(path)\<close>: the error text or the info\<close>
  open_answer :: "string option"  \<comment> \<open>\<^verbatim>\<open>os.Open(path)\<close>: the error text, if any\<close>
  readat_bytes :: "byte list"
    \<comment> \<open>the bytes at offset 0 that \<^verbatim>\<open>ReadAt\<close> can deliver; it fills at most the slice it is given\<close>
  read_answers :: "(byte list \<times> read_err) list"
    \<comment> \<open>the successive answers \<^verbatim>\<open>(buf[:n], err)\<close> of \<^verbatim>\<open>f.Read(buf)\<close>; once they are used
        up, \<^verbatim>\<open>Read\<close> answers \<^verbatim>\<open>(0, io.EOF)\<close>\<close>

text \<open>The pure helpers of other packages that only fill display fields.\<close>

record helpers =
  filepath_Base :: "string \<Rightarrow> string"
  filepath_Ext :: "string \<Rightarrow> string"
  HumanBytes :: "int \<Rightarrow> string"

text \<open>A run-time panic of the Go program: a slice expression \<^verbatim>\<open>buf[i:n]\<close> out of range.\<close>

datatype panic = SliceBoundsOutOfRange int int

subsection \<open>Binary detection (lines 59-106)\<close>

definition sniffSize :: int where "sniffSize = 8192"

text \<open>Lines 69-74: the loop over \<^verbatim>\<open>sniff[0..n)\<close> looking for a NUL byte.\<close>

fun nulCheck :: "byte list \<Rightarrow> bool" where
  "nulCheck [] = False"
| "nulCheck (b # bs) = (if b = 0x00 then True else nulCheck bs)"

text \<open>A decoding step consumes at least one byte: the loops below terminate. (The
  variable \<open>size'\<close> is the source's \<^verbatim>\<open>size\<close>.)\<close>

lemma DecodeRune_size_pos: "p \<noteq> [] \<Longrightarrow> 0 < snd (DecodeRune p)"
  by (simp add: DecodeRune_def Let_def)

lemma DecodeRune_size_pos': "DecodeRune p = (r, n) \<Longrightarrow> p \<noteq> [] \<longrightarrow> 0 < n"
  using DecodeRune_size_pos [of p] by simp

text \<open>Lines 77-95: the loop \<^verbatim>\<open>for i < n\<close> with its counter \<^verbatim>\<open>invalid\<close>; the result is
  \<^verbatim>\<open>isBin\<close>. The argument \<open>w\<close> is \<^verbatim>\<open>sniff[:n]\<close>.\<close>

function utf8Check :: "byte list \<Rightarrow> nat \<Rightarrow> int \<Rightarrow> bool" where
  "utf8Check w i invalid =
     (if i < length w then
        (case DecodeRune (drop i w) of (r, size') \<Rightarrow>
           if r = RuneError \<and> size' = 1 then
             (if \<not> FullRune (drop i w) then False
              else (if invalid + 1 > 0 then True else utf8Check w (i + 1) (invalid + 1)))
           else (if invalid > 0 then True else utf8Check w (i + size') invalid))
      else False)"
  by pat_completeness auto
termination
  by (relation "measure (\<lambda>(w, i, invalid). length w - i)")
     (auto dest!: DecodeRune_size_pos' [OF sym])

declare utf8Check.simps [simp del]

text \<open>Lines 67-96: \<^verbatim>\<open>isBin\<close> for the \<open>n\<close> bytes read into \<^verbatim>\<open>sniff\<close>.\<close>

definition isBin :: "byte list \<Rightarrow> bool" where
  "isBin w = (if nulCheck w then True else utf8Check w 0 0)"

text \<open>Lines 62-66 and 97: whether the file is reported as binary, from its size and the
  bytes \<^verbatim>\<open>ReadAt\<close> can deliver. \<^verbatim>\<open>sniff\<close> holds the \<open>n\<close> bytes read: at most
  \<^verbatim>\<open>toRead = min(stat.SizeBytes, sniffSize)\<close>.\<close>

definition sniffWindow :: "int \<Rightarrow> byte list \<Rightarrow> byte list" where
  "sniffWindow sizeBytes readat = take (nat (min sizeBytes sniffSize)) readat"

definition sniffedBinary :: "int \<Rightarrow> byte list \<Rightarrow> bool" where
  "sniffedBinary sizeBytes readat =
     (sizeBytes > 0 \<and> length (sniffWindow sizeBytes readat) > 0
        \<and> isBin (sniffWindow sizeBytes readat))"

subsection \<open>The counting loop (lines 108-195)\<close>

text \<open>The local variables of the loop. \<open>leftover\<close> is \<^verbatim>\<open>leftover[:leftN]\<close>: the array cells
  from \<^verbatim>\<open>leftN\<close> on are always overwritten before they are read.\<close>

record counter =
  lines :: int
  words :: int
  chars :: int
  inWord :: bool
  lastWasNewline :: bool
  leftover :: "byte list"

definition counter0 :: counter where
  "counter0 = \<lparr>lines = 0, words = 0, chars = 0, inWord = False, lastWasNewline = False,
     leftover = []\<rparr>"

text \<open>Lines 132-149 and, word for word again, lines 164-181: one decoded rune is counted.\<close>

definition countRune :: "counter \<Rightarrow> rune \<Rightarrow> counter" where
  "countRune st r =
     (let st = st\<lparr>chars := chars st + 1\<rparr> in
      if r = 0x0A then
        st\<lparr>lines := lines st + 1, inWord := False, lastWasNewline := True\<rparr>
      else
        (let st = st\<lparr>lastWasNewline := False\<rparr> in
         if IsSpace r then (if inWord st then st\<lparr>inWord := False\<rparr> else st)
         else (if \<not> inWord st then st\<lparr>words := words st + 1, inWord := True\<rparr> else st)))"

text \<open>The slice expression \<^verbatim>\<open>buf[i:n]\<close> with \<open>n = len(buf)\<close>: it panics unless \<open>0 \<le> i \<le> n\<close>.\<close>

definition slice_from :: "byte list \<Rightarrow> int \<Rightarrow> panic + byte list" where
  "slice_from buf i =
     (if 0 \<le> i \<and> i \<le> int (length buf) then Inr (drop (nat i) buf)
      else Inl (SliceBoundsOutOfRange i (int (length buf))))"

text \<open>Lines 156-183: the loop \<^verbatim>\<open>for i < n\<close> over the chunk \<open>buf = buf[:n]\<close>.\<close>

function chunkLoop :: "byte list \<Rightarrow> int \<Rightarrow> counter \<Rightarrow> panic + counter" where
  "chunkLoop buf i st =
     (if i < int (length buf) then
        (case slice_from buf i of
           Inl e \<Rightarrow> Inl e
         | Inr p \<Rightarrow>
             (case DecodeRune p of (r, size') \<Rightarrow>
                if r = RuneError \<and> size' = 1 \<and> \<not> FullRune p then
                  Inr (st\<lparr>leftover := take 4 p\<rparr>)
                else chunkLoop buf (i + int size') (countRune st r)))
      else Inr st)"
  by pat_completeness auto
termination
  by (relation "measure (\<lambda>(buf, i, st). nat (int (length buf) - i))")
     (auto simp: slice_from_def split: if_splits dest!: DecodeRune_size_pos' [OF sym])

declare chunkLoop.simps [simp del]

text \<open>Lines 118-184: one chunk \<open>buf = buf[:n]\<close> with \<open>n > 0\<close>. The index \<open>i\<close> the loop starts
  from is \<open>0\<close>, \<open>need\<close> or \<^verbatim>\<open>size - leftN\<close> (line 150); nothing keeps the last one from
  being negative.\<close>

definition processChunk :: "byte list \<Rightarrow> counter \<Rightarrow> panic + counter" where
  "processChunk buf st =
     (let n = int (length buf); leftN = int (length (leftover st)) in
      if leftN > 0 then
        (let need = min (4 - leftN) n;
             seq = leftover st @ take (nat need) buf in
         case DecodeRune seq of (r, size') \<Rightarrow>
           if r = RuneError \<and> size' = 1 \<and> \<not> FullRune seq then
             chunkLoop buf need (st\<lparr>leftover := seq\<rparr>)
           else
             chunkLoop buf (int size' - leftN) ((countRune st r)\<lparr>leftover := []\<rparr>))
      else chunkLoop buf 0 st)"

text \<open>Lines 116-195: the read loop. The result is a panic, or the text of a read error,
  or the counters at \<^verbatim>\<open>io.EOF\<close>.\<close>

fun readLoop :: "(byte list \<times> read_err) list \<Rightarrow> counter \<Rightarrow> panic + (string + counter)" where
  "readLoop [] st = Inr (Inr st)"
| "readLoop ((buf, err) # rest) st =
     (case (if length buf > 0 then processChunk buf st else Inr st) of
        Inl e \<Rightarrow> Inl e
      | Inr st' \<Rightarrow>
          (case err of
             EOF \<Rightarrow> Inr (Inr st')
           | ErrIO msg \<Rightarrow> Inr (Inl msg)
           | ErrNil \<Rightarrow> readLoop rest st'))"

text \<open>Lines 197-210: what is done after the loop.\<close>

definition atEOF :: "counter \<Rightarrow> counter" where
  "atEOF st =
     (let st = (if length (leftover st) > 0 then
                  (let st = st\<lparr>chars := chars st + 1, lastWasNewline := False\<rparr> in
                   if \<not> inWord st then st\<lparr>words := words st + 1, inWord := True\<rparr> else st)
                else st) in
      if chars st > 0 \<and> \<not> lastWasNewline st then st\<lparr>lines := lines st + 1\<rparr> else st)"

subsection \<open>AnalyzeFile (lines 33-216)\<close>

text \<open>The result is the one record sent on \<^verbatim>\<open>out\<close>, or the panic that ends the goroutine
  before anything is sent.\<close>

definition AnalyzeFile :: "helpers \<Rightarrow> string \<Rightarrow> os_file \<Rightarrow> panic + FileStats" where
  "AnalyzeFile h path f =
     (let stat = \<lparr>Name = filepath_Base h path, Ext = filepath_Ext h path, Kind = [],
                  SizeBytes = 0, Size = [], Lines = 0, Words = 0, Chars = 0, ModTime = [],
                  ModUnix = 0, HasError = False, ErrorText = []\<rparr> in
      case stat_answer f of
        Inl err \<Rightarrow> Inr (stat\<lparr>HasError := True, ErrorText := err\<rparr>)
      | Inr info \<Rightarrow>
          (let stat = stat\<lparr>SizeBytes := fi_Size info, Size := HumanBytes h (fi_Size info),
                          ModTime := fi_ModTime info, ModUnix := fi_ModUnix info\<rparr> in
           case open_answer f of
             Some err \<Rightarrow> Inr (stat\<lparr>HasError := True, ErrorText := err\<rparr>)
           | None \<Rightarrow>
               (let stat = stat\<lparr>Kind := ''text''\<rparr> in
                if sniffedBinary (SizeBytes stat) (readat_bytes f) then
                  Inr (stat\<lparr>Kind := ''binary'', Lines := 0, Words := 0, Chars := 0\<rparr>)
                else
                  (case readLoop (read_answers f) counter0 of
                     Inl e \<Rightarrow> Inl e
                   | Inr (Inl err) \<Rightarrow> Inr (stat\<lparr>HasError := True, ErrorText := err\<rparr>)
                   | Inr (Inr st) \<Rightarrow>
                       (let st = atEOF st in
                        Inr (stat\<lparr>Lines := lines st, Words := words st,
                                  Chars := chars st\<rparr>))))))"

text \<open>A readable regular file whose bytes are \<open>concat chunks\<close> and which \<^verbatim>\<open>Read\<close>
  delivers in the given chunks, then \<^verbatim>\<open>(0, io.EOF)\<close>.\<close>

definition plain_file :: "byte list list \<Rightarrow> os_file" where
  "plain_file chunks =
     \<lparr>stat_answer = Inr \<lparr>fi_Size = int (length (concat chunks)),
                          fi_ModTime = ''2024-01-01 00:00:00'', fi_ModUnix = 1704067200\<rparr>,
      open_answer = None,
      readat_bytes = concat chunks,
      read_answers = map (\<lambda>c. (c, ErrNil)) chunks @ [([], EOF)]\<rparr>"

section \<open>The concurrency ceiling (cli.ParseArgs and run.Run, lines 43-49)\<close>

definition defaultJobs :: int where "defaultJobs = 1"

text \<open>\<^verbatim>\<open>ParseArgs\<close>, as far as \<^verbatim>\<open>cfg.Jobs\<close> goes: the default, the value of \<^verbatim>\<open>--jobs\<close> or
  \<^verbatim>\<open>-j\<close> when the flag is given, and the clamp \<^verbatim>\<open>if cfg.Jobs < 1 { cfg.Jobs = 1 }\<close>.\<close>

definition ParseArgs_Jobs :: "int option \<Rightarrow> int" where
  "ParseArgs_Jobs flag =
     (let Jobs = (case flag of None \<Rightarrow> defaultJobs | Some v \<Rightarrow> v) in
      if Jobs < 1 then 1 else Jobs)"

text \<open>\<^verbatim>\<open>Run\<close>, lines 43-49: \<open>jobs\<close> from \<^verbatim>\<open>cfg.Jobs\<close> and \<^verbatim>\<open>runtime.NumCPU()\<close>.\<close>

definition Run_jobs :: "int \<Rightarrow> int \<Rightarrow> int" where
  "Run_jobs cfg_Jobs NumCPU =
     (let jobs = cfg_Jobs;
          jobs = (if jobs \<le> 0 then NumCPU else jobs);
          jobs = (if jobs < 1 then 1 else jobs)
      in jobs)"

section \<open>The dispatcher (run.Run, lines 51-85)\<close>

text \<open>\<^verbatim>\<open>Run\<close> starts one goroutine per path, a goroutine that closes the channel
  \<^verbatim>\<open>results\<close>, and collects in the main goroutine. The goroutines are modelled as an
  interleaving of their atomic steps on the shared objects: the buffered channel \<^verbatim>\<open>sem\<close>
  (by the number of tokens in it), the wait group (by its counter), the buffered channel
  \<^verbatim>\<open>results\<close> (by its queue and whether it is closed) and the slice \<^verbatim>\<open>stats\<close>.

  The main goroutine is at \<open>Loop k\<close> before the iteration for \<^verbatim>\<open>files[k]\<close> (line 56),
  at \<open>Added k\<close> after \<^verbatim>\<open>wg.Add(1)\<close> (line 57), at \<open>Acquired k\<close> after \<^verbatim>\<open>sem <- struct{}{}\<close>
  (line 58), at \<open>Collecting\<close> in the loop \<^verbatim>\<open>for fs := range results\<close> (lines 79-85) and at
  \<open>Finished\<close> after it. A worker (lines 59-62) is \<open>Analyzing\<close> until \<^verbatim>\<open>AnalyzeFile\<close> sends
  its record, \<open>Sent\<close> until the deferred \<^verbatim>\<open>wg.Done()\<close>, \<open>Returned\<close> until the deferred
  \<^verbatim>\<open><-sem\<close>, and then gone. The closer (lines 66-69) waits in \<^verbatim>\<open>wg.Wait()\<close>, then closes
  \<^verbatim>\<open>results\<close>. A panic in a goroutine ends the whole program.\<close>

datatype main_pc = Loop nat | Added nat | Acquired nat | Collecting | Finished
datatype worker_pc = Analyzing | Sent | Returned
datatype closer_pc = NotStarted | Waiting | Closing | Exited

record dispatcher =
  main :: main_pc
  workers :: "(string \<times> worker_pc) list"
  sem :: nat
  wg :: int
  results :: "FileStats list"
  results_closed :: bool
  closer :: closer_pc
  stats :: "FileStats list"
  crashed :: "panic option"

definition dispatcher0 :: dispatcher where
  "dispatcher0 = \<lparr>main = Loop 0, workers = [], sem = 0, wg = 0, results = [],
     results_closed = False, closer = NotStarted, stats = [], crashed = None\<rparr>"

inductive step :: "helpers \<Rightarrow> (string \<Rightarrow> os_file) \<Rightarrow> string list \<Rightarrow> nat
    \<Rightarrow> dispatcher \<Rightarrow> dispatcher \<Rightarrow> bool"
  for h :: helpers and fs :: "string \<Rightarrow> os_file" and files :: "string list" and jobs :: nat
  where
    wg_Add: "crashed s = None \<Longrightarrow> main s = Loop k \<Longrightarrow> k < length files
      \<Longrightarrow> step h fs files jobs s (s\<lparr>main := Added k, wg := wg s + 1\<rparr>)"
  | sem_send: "crashed s = None \<Longrightarrow> main s = Added k \<Longrightarrow> sem s < jobs
      \<Longrightarrow> step h fs files jobs s (s\<lparr>main := Acquired k, sem := sem s + 1\<rparr>)"
  | go_worker: "crashed s = None \<Longrightarrow> main s = Acquired k
      \<Longrightarrow> step h fs files jobs s
            (s\<lparr>main := Loop (k + 1), workers := workers s @ [(files ! k, Analyzing)]\<rparr>)"
  | go_closer: "crashed s = None \<Longrightarrow> main s = Loop k \<Longrightarrow> \<not> k < length files
      \<Longrightarrow> step h fs files jobs s (s\<lparr>main := Collecting, closer := Waiting\<rparr>)"
  | out_send: "crashed s = None \<Longrightarrow> workers s = ws @ (p, Analyzing) # ws'
      \<Longrightarrow> AnalyzeFile h p (fs p) = Inr r \<Longrightarrow> length (results s) < length files
      \<Longrightarrow> step h fs files jobs s
            (s\<lparr>workers := ws @ (p, Sent) # ws', results := results s @ [r]\<rparr>)"
  | panics: "crashed s = None \<Longrightarrow> workers s = ws @ (p, Analyzing) # ws'
      \<Longrightarrow> AnalyzeFile h p (fs p) = Inl e
      \<Longrightarrow> step h fs files jobs s (s\<lparr>crashed := Some e\<rparr>)"
  | wg_Done: "crashed s = None \<Longrightarrow> workers s = ws @ (p, Sent) # ws'
      \<Longrightarrow> step h fs files jobs s
            (s\<lparr>workers := ws @ (p, Returned) # ws', wg := wg s - 1\<rparr>)"
  | sem_recv: "crashed s = None \<Longrightarrow> workers s = ws @ (p, Returned) # ws' \<Longrightarrow> sem s > 0
      \<Longrightarrow> step h fs files jobs s (s\<lparr>workers := ws @ ws', sem := sem s - 1\<rparr>)"
  | wg_Wait: "crashed s = None \<Longrightarrow> closer s = Waiting \<Longrightarrow> wg s = 0
      \<Longrightarrow> step h fs files jobs s (s\<lparr>closer := Closing\<rparr>)"
  | close_results: "crashed s = None \<Longrightarrow> closer s = Closing
      \<Longrightarrow> step h fs files jobs s (s\<lparr>closer := Exited, results_closed := True\<rparr>)"
  | range_recv: "crashed s = None \<Longrightarrow> main s = Collecting \<Longrightarrow> results s = r # rs
      \<Longrightarrow> step h fs files jobs s (s\<lparr>results := rs, stats := stats s @ [r]\<rparr>)"
  | range_end: "crashed s = None \<Longrightarrow> main s = Collecting \<Longrightarrow> results s = []
      \<Longrightarrow> results_closed s
      \<Longrightarrow> step h fs files jobs s (s\<lparr>main := Finished\<rparr>)"

inductive reachable :: "helpers \<Rightarrow> (string \<Rightarrow> os_file) \<Rightarrow> string list \<Rightarrow> nat
    \<Rightarrow> dispatcher \<Rightarrow> bool"
  for h :: helpers and fs :: "string \<Rightarrow> os_file" and files :: "string list" and jobs :: nat
  where
    start: "reachable h fs files jobs dispatcher0"
  | next_step: "reachable h fs files jobs s \<Longrightarrow> step h fs files jobs s s'
      \<Longrightarrow> reachable h fs files jobs s'"

text \<open>The analyses in progress: workers whose \<^verbatim>\<open>AnalyzeFile\<close> has not returned.\<close>

definition executing :: "dispatcher \<Rightarrow> nat" where
  "executing s = length (filter (\<lambda>w. snd w \<noteq> Returned) (workers s))"

text \<open>Bookkeeping for the invariants: the slot the main goroutine holds for a worker it
  has not started yet, its pending \<^verbatim>\<open>wg.Add\<close>, the number of workers started so far, and
  whether it is still in the loop of lines 56-63.\<close>

fun holding :: "main_pc \<Rightarrow> nat" where
  "holding (Acquired k) = 1"
| "holding _ = 0"

fun adding :: "main_pc \<Rightarrow> int" where
  "adding (Added k) = 1"
| "adding (Acquired k) = 1"
| "adding _ = 0"

fun started :: "nat \<Rightarrow> main_pc \<Rightarrow> nat" where
  "started N (Loop k) = k"
| "started N (Added k) = k"
| "started N (Acquired k) = k"
| "started N Collecting = N"
| "started N Finished = N"

fun looping :: "main_pc \<Rightarrow> bool" where
  "looping (Loop k) = True"
| "looping (Added k) = True"
| "looping (Acquired k) = True"
| "looping _ = False"

definition outcome :: "helpers \<Rightarrow> (string \<Rightarrow> os_file) \<Rightarrow> string \<Rightarrow> panic + FileStats" where
  "outcome h fs p = AnalyzeFile h p (fs p)"

text \<open>The steps still ahead of a run: 7 per path not yet started (three steps of the main
  goroutine and four of the worker), and what each goroutine and the queue of \<^verbatim>\<open>results\<close>
  still have to do. Every step lowers it, so every run is finite.\<close>

fun main_left :: "nat \<Rightarrow> main_pc \<Rightarrow> nat" where
  "main_left N (Loop k) = 7 * (N - k) + 2"
| "main_left N (Added k) = 7 * (N - k) + 1"
| "main_left N (Acquired k) = 7 * (N - k)"
| "main_left N Collecting = 1"
| "main_left N Finished = 0"

fun worker_left :: "worker_pc \<Rightarrow> nat" where
  "worker_left Analyzing = 4"
| "worker_left Sent = 2"
| "worker_left Returned = 1"

fun closer_left :: "closer_pc \<Rightarrow> nat" where
  "closer_left NotStarted = 2"
| "closer_left Waiting = 2"
| "closer_left Closing = 1"
| "closer_left Exited = 0"

definition work_left :: "nat \<Rightarrow> dispatcher \<Rightarrow> nat" where
  "work_left N s =
     main_left N (main s) + sum_list (map (\<lambda>w. worker_left (snd w)) (workers s))
       + closer_left (closer s) + length (results s) + (if crashed s = None then 1 else 0)"

section \<open>List views of the two loops\<close>

text \<open>The loops of the analyzer walk an index through a buffer. For the proofs the same
  loops are written on the bytes still to be read, and shown equal to the index form.\<close>

function scanBytes :: "byte list \<Rightarrow> counter \<Rightarrow> counter" where
  "scanBytes p st =
     (if p = [] then st
      else (case DecodeRune p of (r, size') \<Rightarrow>
              if r = RuneError \<and> size' = 1 \<and> \<not> FullRune p then st\<lparr>leftover := take 4 p\<rparr>
              else scanBytes (drop size' p) (countRune st r)))"
  by pat_completeness auto
termination
  by (relation "measure (\<lambda>(p, st). length p)")
     (auto dest!: DecodeRune_size_pos' [OF sym])

declare scanBytes.simps [simp del]

function utf8Bad :: "byte list \<Rightarrow> bool" where
  "utf8Bad p =
     (if p = [] then False
      else (case DecodeRune p of (r, size') \<Rightarrow>
              if r = RuneError \<and> size' = 1 then FullRune p
              else utf8Bad (drop size' p)))"
  by pat_completeness auto
termination
  by (relation "measure length") (auto dest!: DecodeRune_size_pos' [OF sym])

declare utf8Bad.simps [simp del]

text \<open>What one uninterrupted pass makes of the carried bytes followed by the next chunk,
  and the condition on the carried bytes that the loop maintains: none, or the beginning
  of a sequence that is not yet full.\<close>

definition resume :: "counter \<Rightarrow> byte list \<Rightarrow> counter" where
  "resume st buf = scanBytes (leftover st @ buf) (st\<lparr>leftover := []\<rparr>)"

definition carry_ok :: "counter \<Rightarrow> bool" where
  "carry_ok st = (leftover st = [] \<or> \<not> FullRune (leftover st))"

text \<open>The counters after \<open>k\<close> letters (runes that are neither newline nor space).\<close>

definition letters :: "nat \<Rightarrow> counter \<Rightarrow> counter" where
  "letters k st =
     (if k = 0 then st
      else st\<lparr>words := (if inWord st then words st else words st + 1),
               chars := chars st + int k, inWord := True, lastWasNewline := False\<rparr>)"

section \<open>Well-formed UTF-8\<close>

text \<open>The sniff loop is compared with the byte sequences the Unicode standard calls
  well-formed (its table of well-formed UTF-8 byte sequences), written here without the
  library's tables: one byte 00..7F; C2..DF and a continuation byte; E0..EF and two more
  bytes; F0..F4 and three more bytes, with the narrower range of the second byte after E0,
  ED, F0 and F4.\<close>

definition cont :: "byte \<Rightarrow> bool" where
  "cont b = (0x80 \<le> b \<and> b \<le> 0xBF)"

definition second3 :: "byte \<Rightarrow> byte \<Rightarrow> bool" where
  "second3 b0 b1 =
     (if b0 = 0xE0 then 0xA0 \<le> b1 \<and> b1 \<le> 0xBF
      else if b0 = 0xED then 0x80 \<le> b1 \<and> b1 \<le> 0x9F
      else cont b1)"

definition second4 :: "byte \<Rightarrow> byte \<Rightarrow> bool" where
  "second4 b0 b1 =
     (if b0 = 0xF0 then 0x90 \<le> b1 \<and> b1 \<le> 0xBF
      else if b0 = 0xF4 then 0x80 \<le> b1 \<and> b1 \<le> 0x8F
      else cont b1)"

definition wellformed_len :: "byte list \<Rightarrow> nat option" where
  "wellformed_len p =
     (case p of
        [] \<Rightarrow> None
      | b0 # q \<Rightarrow>
          if b0 \<le> 0x7F then Some 1
          else if 0xC2 \<le> b0 \<and> b0 \<le> 0xDF then
            (case q of b1 # _ \<Rightarrow> if cont b1 then Some 2 else None | _ \<Rightarrow> None)
          else if 0xE0 \<le> b0 \<and> b0 \<le> 0xEF then
            (case q of b1 # b2 # _ \<Rightarrow> if second3 b0 b1 \<and> cont b2 then Some 3 else None
             | _ \<Rightarrow> None)
          else if 0xF0 \<le> b0 \<and> b0 \<le> 0xF4 then
            (case q of b1 # b2 # b3 # _ \<Rightarrow>
                         if second4 b0 b1 \<and> cont b2 \<and> cont b3 then Some 4 else None
             | _ \<Rightarrow> None)
          else None)"

definition truncated :: "byte list \<Rightarrow> bool" where
  "truncated p =
     (case p of
        [b0] \<Rightarrow> 0xC2 \<le> b0 \<and> b0 \<le> 0xF4
      | [b0, b1] \<Rightarrow> (0xE0 \<le> b0 \<and> b0 \<le> 0xEF \<and> second3 b0 b1)
                     \<or> (0xF0 \<le> b0 \<and> b0 \<le> 0xF4 \<and> second4 b0 b1)
      | [b0, b1, b2] \<Rightarrow> 0xF0 \<le> b0 \<and> b0 \<le> 0xF4 \<and> second4 b0 b1 \<and> cont b2
      | _ \<Rightarrow> False)"

text \<open>\<open>wellformed_len_pos\<close> is needed for the two recursions below to terminate.\<close>

lemma wellformed_len_pos: "wellformed_len p = Some k \<Longrightarrow> 0 < k \<and> k \<le> length p"
  by (auto simp: wellformed_len_def split: list.splits if_splits)

text \<open>Scanning from the left, the bytes hold an invalid sequence that is complete: at
  some point no well-formed sequence starts and what is left is not merely the beginning
  of one, cut off by the end of the bytes.\<close>

function invalid_sequence :: "byte list \<Rightarrow> bool" where
  "invalid_sequence p =
     (if p = [] then False
      else (case wellformed_len p of
              Some k \<Rightarrow> invalid_sequence (drop k p)
            | None \<Rightarrow> \<not> truncated p))"
  by pat_completeness auto
termination
  by (relation "measure length") (auto dest: wellformed_len_pos)

declare invalid_sequence.simps [simp del]

text \<open>The bytes are a concatenation of well-formed sequences.\<close>

function wellformed :: "byte list \<Rightarrow> bool" where
  "wellformed p =
     (if p = [] then True
      else (case wellformed_len p of
              Some k \<Rightarrow> wellformed (drop k p)
            | None \<Rightarrow> False))"
  by pat_completeness auto
termination
  by (relation "measure length") (auto dest: wellformed_len_pos)

declare wellformed.simps [simp del]

section \<open>Concrete inputs\<close>

text \<open>Helpers that leave the display fields empty.\<close>

definition h0 :: helpers where
  "h0 = \<lparr>filepath_Base = (\<lambda>p. p), filepath_Ext = (\<lambda>p. []), HumanBytes = (\<lambda>n. [])\<rparr>"

text \<open>The counters after a first chunk of 65536 bytes: 65534 letters \<^verbatim>\<open>a\<close> and the first two
  bytes E4 B8 of a three-byte encoding.\<close>

definition carry_state :: counter where
  "carry_state = \<lparr>lines = 0, words = 1, chars = 65534, inWord = True, lastWasNewline = False,
       leftover = [0xE4, 0xB8]\<rparr>"

text \<open>A four-byte file whose second \<^verbatim>\<open>Read\<close> fails.\<close>

definition failing_file :: os_file where
  "failing_file =
     \<lparr>stat_answer = Inr \<lparr>fi_Size = 4, fi_ModTime = ''2024-01-01 00:00:00'',
                          fi_ModUnix = 1704067200\<rparr>,
      open_answer = None,
      readat_bytes = [0x61, 0x0A, 0x62, 0x0A],
      read_answers = [([0x61, 0x0A], ErrNil), ([], ErrIO ''read t.txt: input/output error'')]\<rparr>"

text \<open>A text of 8194 bytes whose last character, E4 B8 AD, begins at the last byte of the
  8192-byte sniff window.\<close>

definition straddling :: "byte list" where
  "straddling = replicate 8191 0x61 @ [0xE4, 0xB8, 0xAD]"

text \<open>A file that has grown since \<^verbatim>\<open>os.Stat\<close>: the size reported is 2, and three bytes,
  the last of them NUL, are there to be read.\<close>

definition grown_file :: os_file where
  "grown_file =
     \<lparr>stat_answer = Inr \<lparr>fi_Size = 2, fi_ModTime = ''2024-01-01 00:00:00'',
                          fi_ModUnix = 1704067200\<rparr>,
      open_answer = None,
      readat_bytes = [0x61, 0x62, 0x00],
      read_answers = [([0x61, 0x62, 0x00], ErrNil), ([], EOF)]\<rparr>"

text \<open>One small file per path.\<close>

definition one_file :: "string \<Rightarrow> os_file" where
  "one_file p = plain_file [[0x61]]"

text \<open>Every path names a one-letter file, except \<^verbatim>\<open>big.txt\<close>: 65537 bytes, read in a
  chunk of 65536 bytes that ends with E4 B8 and a chunk holding the letter \<^verbatim>\<open>a\<close>.\<close>

definition two_files :: "string \<Rightarrow> os_file" where
  "two_files p =
     (if p = ''big.txt'' then plain_file [replicate 65534 0x61 @ [0xE4, 0xB8], [0x61]]
      else plain_file [[0x61]])"

text \<open>The dispatcher with every worker started and none finished, for one path and
  \<open>jobs = 1\<close>, and for two paths and \<open>jobs = 2\<close>.\<close>

definition running_one :: dispatcher where
  "running_one = \<lparr>main = Loop 1, workers = [(''a.txt'', Analyzing)], sem = 1, wg = 1,
     results = [], results_closed = False, closer = NotStarted, stats = [], crashed = None\<rparr>"

definition running_two :: dispatcher where
  "running_two = \<lparr>main = Loop 2, workers = [(''ok.txt'', Analyzing), (''big.txt'', Analyzing)],
     sem = 2, wg = 2, results = [], results_closed = False, closer = NotStarted, stats = [],
     crashed = None\<rparr>"

section \<open>Lemmas\<close>

lemmas utf8_consts = first_def as_def xx_def s1_def s2_def s3_def s4_def s5_def s6_def s7_def
  RuneError_def acceptRanges_def locb_def hicb_def mask2_def mask3_def mask4_def maskx_def

lemma chunkLoop_neg:
  "i < 0 \<Longrightarrow> chunkLoop buf i st = Inl (SliceBoundsOutOfRange i (int (length buf)))"
  by (subst chunkLoop.simps) (simp add: slice_from_def)

lemma chunkLoop_scan:
  "0 \<le> i \<Longrightarrow> chunkLoop buf i st = Inr (scanBytes (drop (nat i) buf) st)"
proof (induction buf i st rule: chunkLoop.induct)
  case (1 buf i st)
  show ?case
  proof (cases "i < int (length buf)")
    case False
    then show ?thesis
      by (subst chunkLoop.simps, subst scanBytes.simps) simp
  next
    case True
    with "1.prems" have sl: "slice_from buf i = Inr (drop (nat i) buf)"
      by (simp add: slice_from_def)
    obtain r n where dr: "DecodeRune (drop (nat i) buf) = (r, n)"
      by (cases "DecodeRune (drop (nat i) buf)")
    from True "1.prems" have ne: "drop (nat i) buf \<noteq> []" by simp
    show ?thesis
    proof (cases "r = RuneError \<and> n = 1 \<and> \<not> FullRune (drop (nat i) buf)")
      case stash: True
      then show ?thesis
        using True sl dr ne
        by (subst chunkLoop.simps, subst scanBytes.simps) simp
    next
      case go: False
      have "chunkLoop buf (i + int n) (countRune st r)
            = Inr (scanBytes (drop (nat (i + int n)) buf) (countRune st r))"
        using "1.IH" [OF True sl dr [symmetric] go] "1.prems" by simp
      moreover have "drop (nat (i + int n)) buf = drop n (drop (nat i) buf)"
        using "1.prems" by (simp add: nat_add_distrib add.commute)
      ultimately show ?thesis
        using True sl dr ne go
        by (subst chunkLoop.simps, subst scanBytes.simps) auto
    qed
  qed
qed

lemma utf8Check_list: "utf8Check w i 0 = utf8Bad (drop i w)"
proof (induction w i "0::int" rule: utf8Check.induct)
  case (1 w i)
  show ?case
  proof (cases "i < length w")
    case False
    then show ?thesis by (subst utf8Check.simps, subst utf8Bad.simps) simp
  next
    case True
    obtain r n where dr: "DecodeRune (drop i w) = (r, n)"
      by (cases "DecodeRune (drop i w)")
    show ?thesis
    proof (cases "r = RuneError \<and> n = 1")
      case True
      then show ?thesis using \<open>i < length w\<close> dr
        by (subst utf8Check.simps, subst utf8Bad.simps) simp
    next
      case False
      have "utf8Check w (i + n) 0 = utf8Bad (drop (i + n) w)"
        using "1.hyps"(2) [OF True dr [symmetric] False] by simp
      then show ?thesis using \<open>i < length w\<close> dr False
        by (subst utf8Check.simps, subst utf8Bad.simps) (auto simp: add.commute)
    qed
  qed
qed

lemma nulCheck_set: "nulCheck w = (0 \<in> set w)"
  by (induction w) auto

lemma isBin_list: "isBin w = (0 \<in> set w \<or> utf8Bad w)"
  using utf8Check_list [of w 0] by (simp add: isBin_def nulCheck_set)

lemma unat_ucast_byte: "unat (ucast (b::byte) :: rune) = unat b"
proof -
  have "unat b < 2 ^ 8" using unsigned_less [of b] by simp
  then have "unat b < 2 ^ 32" by simp
  then show ?thesis by (simp add: unsigned_ucast_eq take_bit_nat_eq_self)
qed

lemma DecodeRune_ascii: "b < 0x80 \<Longrightarrow> DecodeRune (b # bs) = (ucast b, 1)"
  by (simp add: DecodeRune_def first_def as_def)

lemma ucast_ascii_ne_RuneError: "(b::byte) < 0x80 \<Longrightarrow> (ucast b :: rune) \<noteq> RuneError"
proof
  assume "b < 0x80" and "(ucast b :: rune) = RuneError"
  then have "unat b < 128" "unat (ucast b :: rune) = 65533"
    by (simp_all add: word_less_nat_alt RuneError_def)
  then show False by (simp add: unat_ucast_byte)
qed

lemma scanBytes_Nil: "scanBytes [] st = st"
  by (subst scanBytes.simps) simp

lemma scanBytes_ascii:
  "b < 0x80 \<Longrightarrow> scanBytes (b # bs) st = scanBytes bs (countRune st (ucast b))"
  by (subst scanBytes.simps) (simp add: DecodeRune_ascii ucast_ascii_ne_RuneError)

lemma utf8Bad_Nil: "\<not> utf8Bad []"
  by (subst utf8Bad.simps) simp

lemma utf8Bad_ascii: "b < 0x80 \<Longrightarrow> utf8Bad (b # bs) = utf8Bad bs"
  by (subst utf8Bad.simps) (simp add: DecodeRune_ascii ucast_ascii_ne_RuneError)

lemma countRune_a: "countRune st 0x61 = letters 1 st"
  by (simp add: countRune_def letters_def IsSpace_def MaxLatin1_def Let_def)

lemma letters_Suc: "letters k (letters 1 st) = letters (Suc k) st"
  by (simp add: letters_def)

lemma scanBytes_replicate_a:
  "scanBytes (replicate k 0x61 @ rest) st = scanBytes rest (letters k st)"
proof (induction k arbitrary: st)
  case 0
  show ?case by (simp add: letters_def)
next
  case (Suc k)
  have "scanBytes (replicate (Suc k) 0x61 @ rest) st
        = scanBytes (replicate k 0x61 @ rest) (countRune st (ucast (0x61 :: byte)))"
    by (simp add: scanBytes_ascii)
  also have "\<dots> = scanBytes rest (letters k (letters 1 st))"
    by (simp add: Suc.IH countRune_a)
  finally show ?case by (simp only: letters_Suc)
qed

lemma utf8Bad_replicate_a: "utf8Bad (replicate k 0x61 @ rest) = utf8Bad rest"
  by (induction k) (simp_all add: utf8Bad_ascii)

lemma isBin_replicate_a: "\<not> isBin (replicate k 0x61)"
  using utf8Bad_replicate_a [of k "[]"] by (simp add: isBin_list utf8Bad_Nil)

lemma DecodeRune_E4_B8: "DecodeRune [0xE4, 0xB8] = (RuneError, 1)"
  by (simp add: DecodeRune_def utf8_consts)

lemma FullRune_E4_B8: "\<not> FullRune [0xE4, 0xB8]"
  by (simp add: FullRune_def utf8_consts)

lemma DecodeRune_E4_B8_a: "DecodeRune [0xE4, 0xB8, 0x61] = (RuneError, 1)"
  by (simp add: DecodeRune_def utf8_consts)

lemma FullRune_E4_B8_a: "FullRune [0xE4, 0xB8, 0x61]"
  by (simp add: FullRune_def utf8_consts)

lemma DecodeRune_B8_a: "DecodeRune [0xB8, 0x61] = (RuneError, 1)"
  by (simp add: DecodeRune_def utf8_consts)

lemma FullRune_B8_a: "FullRune [0xB8, 0x61]"
  by (simp add: FullRune_def utf8_consts)

lemma countRune_chars: "chars (countRune st r) = chars st + 1"
  by (simp add: countRune_def Let_def)

lemma scanBytes_chars: "chars st \<le> chars (scanBytes p st)"
proof (induction p st rule: scanBytes.induct)
  case (1 p st)
  show ?case
  proof (cases "p = []")
    case True
    then show ?thesis by (simp add: scanBytes_Nil)
  next
    case False
    obtain r n where dr: "DecodeRune p = (r, n)" by (cases "DecodeRune p")
    show ?thesis
    proof (cases "r = RuneError \<and> n = 1 \<and> \<not> FullRune p")
      case True
      then show ?thesis using False dr by (subst scanBytes.simps) simp
    next
      case go: False
      from "1.IH" [OF False dr [symmetric] go]
      have "chars (countRune st r) \<le> chars (scanBytes (drop n p) (countRune st r))" .
      then show ?thesis using False dr go
        by (subst scanBytes.simps) (auto simp: countRune_chars)
    qed
  qed
qed

lemma chunkLoop_chars: "chunkLoop buf i st = Inr st' \<Longrightarrow> chars st \<le> chars st'"
proof (cases "i < 0")
  case True
  assume "chunkLoop buf i st = Inr st'"
  with True show ?thesis by (simp add: chunkLoop_neg)
next
  case False
  assume "chunkLoop buf i st = Inr st'"
  with False show ?thesis using scanBytes_chars [of st "drop (nat i) buf"]
    by (simp add: chunkLoop_scan)
qed

lemma processChunk_chars: "processChunk buf st = Inr st' \<Longrightarrow> chars st \<le> chars st'"
  unfolding processChunk_def Let_def
  by (auto split: if_splits prod.splits dest!: chunkLoop_chars simp: countRune_chars)

lemma readLoop_chars: "readLoop ans st = Inr (Inr st') \<Longrightarrow> chars st \<le> chars st'"
proof (induction ans arbitrary: st)
  case Nil
  then show ?case by simp
next
  case (Cons a ans)
  obtain buf err where a: "a = (buf, err)" by (cases a)
  show ?case
  proof (cases "buf = []")
    case True
    with Cons a show ?thesis by (cases err) auto
  next
    case False
    with Cons.prems a obtain st1 where p: "processChunk buf st = Inr st1"
      by (auto split: sum.splits)
    from processChunk_chars [OF p] have le: "chars st \<le> chars st1" .
    show ?thesis
    proof (cases err)
      case ErrNil
      with Cons.prems a False p have "readLoop ans st1 = Inr (Inr st')" by simp
      from Cons.IH [OF this] le show ?thesis by simp
    next
      case EOF
      with Cons.prems a False p le show ?thesis by simp
    next
      case (ErrIO m)
      with Cons.prems a False p show ?thesis by simp
    qed
  qed
qed

lemma readLoop_chars0: "readLoop ans counter0 = Inr (Inr st) \<Longrightarrow> 0 \<le> chars st"
  using readLoop_chars [of ans counter0 st] by (simp add: counter0_def)

lemma readLoop_a_E4_B8:
  "readLoop [([0x61, 0xE4, 0xB8], ErrNil), ([], EOF)] counter0
     = Inr (Inr \<lparr>lines = 0, words = 1, chars = 1, inWord = True, lastWasNewline = False,
                 leftover = [0xE4, 0xB8]\<rparr>)"
  apply (simp add: processChunk_def counter0_def chunkLoop_scan scanBytes_ascii)
  apply (subst scanBytes.simps)
  apply (simp add: DecodeRune_E4_B8 FullRune_E4_B8 countRune_def IsSpace_def MaxLatin1_def)
  done

lemma not_binary_a_E4_B8: "\<not> sniffedBinary 3 [0x61, 0xE4, 0xB8]"
  apply (simp add: sniffedBinary_def sniffWindow_def sniffSize_def isBin_list utf8Bad_ascii)
  apply (subst utf8Bad.simps)
  apply (simp add: DecodeRune_E4_B8 FullRune_E4_B8)
  done

lemma isBin_ascii: "\<forall>b\<in>set w. b \<noteq> 0 \<and> b < 0x80 \<Longrightarrow> \<not> isBin w"
proof -
  assume a: "\<forall>b\<in>set w. b \<noteq> 0 \<and> b < 0x80"
  then have "\<not> utf8Bad w"
    by (induction w) (simp_all add: utf8Bad_Nil utf8Bad_ascii)
  with a show ?thesis by (auto simp: isBin_list)
qed

lemma readLoop_failing_read:
  "list_all (\<lambda>a. snd a = ErrNil) pre \<Longrightarrow> readLoop (pre @ [(c, EOF)]) st = Inr (Inr st')
   \<Longrightarrow> readLoop (pre @ (c, ErrIO e) # post) st = Inr (Inl e)"
proof (induction pre arbitrary: st)
  case Nil
  then show ?case by (auto split: sum.splits if_splits)
next
  case (Cons a pre)
  obtain buf err where a: "a = (buf, err)" by (cases a)
  with Cons.prems have err: "err = ErrNil" by simp
  show ?case
  proof (cases "if length buf > 0 then processChunk buf st else Inr st")
    case (Inl x)
    with Cons.prems a err show ?thesis by (simp split: if_splits)
  next
    case (Inr st1)
    with Cons.prems a err have "readLoop (pre @ [(c, EOF)]) st1 = Inr (Inr st')"
      by (simp split: if_splits)
    moreover from Cons.prems have "list_all (\<lambda>a. snd a = ErrNil) pre" by simp
    ultimately have "readLoop (pre @ (c, ErrIO e) # post) st1 = Inr (Inl e)"
      by (rule Cons.IH [rotated])
    with Inr a err show ?thesis by (simp split: if_splits)
  qed
qed

lemma letters_counter0: "letters 65534 counter0 = carry_state\<lparr>leftover := []\<rparr>"
  by (simp add: letters_def counter0_def carry_state_def)

lemma processChunk_first:
  "processChunk (replicate 65534 0x61 @ [0xE4, 0xB8]) counter0 = Inr carry_state"
proof -
  have "scanBytes [0xE4, 0xB8] (letters 65534 counter0) = carry_state"
    by (subst scanBytes.simps)
       (simp add: DecodeRune_E4_B8 FullRune_E4_B8 letters_counter0 carry_state_def)
  then show ?thesis
    by (simp add: processChunk_def counter0_def chunkLoop_scan scanBytes_replicate_a)
qed

lemma processChunk_second:
  "processChunk [0x61] carry_state = Inl (SliceBoundsOutOfRange (- 1) 1)"
  by (simp add: processChunk_def carry_state_def DecodeRune_E4_B8_a FullRune_E4_B8_a chunkLoop_neg)

lemma processChunk_whole:
  "processChunk (replicate 65534 0x61 @ [0xE4, 0xB8, 0x61]) counter0
     = Inr \<lparr>lines = 0, words = 1, chars = 65537, inWord = True, lastWasNewline = False,
            leftover = []\<rparr>"
proof -
  have "scanBytes [0xE4, 0xB8, 0x61] (letters 65534 counter0)
        = \<lparr>lines = 0, words = 1, chars = 65537, inWord = True, lastWasNewline = False,
            leftover = []\<rparr>"
    apply (subst scanBytes.simps)
    apply (simp add: DecodeRune_E4_B8_a FullRune_E4_B8_a)
    apply (subst scanBytes.simps)
    apply (simp add: DecodeRune_B8_a FullRune_B8_a scanBytes_ascii scanBytes_Nil)
    apply (simp add: countRune_def letters_def counter0_def IsSpace_def MaxLatin1_def RuneError_def)
    done
  then show ?thesis
    by (simp add: processChunk_def counter0_def chunkLoop_scan scanBytes_replicate_a)
qed

lemma sniff_big:
  "\<not> sniffedBinary 65537 (replicate 65534 0x61 @ rest)"
  by (simp add: sniffedBinary_def sniffWindow_def sniffSize_def isBin_replicate_a)

lemma Run_jobs_after_ParseArgs: "Run_jobs (ParseArgs_Jobs flag) NumCPU = ParseArgs_Jobs flag"
  by (simp add: Run_jobs_def ParseArgs_Jobs_def Let_def)

lemma first_cases:
  fixes b :: byte
  obtains "b \<le> 0x7F" "first b = as"
  | "0x80 \<le> b" "b \<le> 0xC1" "first b = xx"
  | "0xC2 \<le> b" "b \<le> 0xDF" "first b = s1"
  | "b = 0xE0" "first b = s2"
  | "0xE1 \<le> b" "b \<le> 0xEC" "first b = s3"
  | "b = 0xED" "first b = s4"
  | "0xEE \<le> b" "b \<le> 0xEF" "first b = s3"
  | "b = 0xF0" "first b = s5"
  | "0xF1 \<le> b" "b \<le> 0xF3" "first b = s6"
  | "b = 0xF4" "first b = s7"
  | "0xF5 \<le> b" "first b = xx"
  unfolding first_def
  apply (simp add: word_le_nat_alt word_less_nat_alt word_unat_eq_iff [of b] split: if_splits)
  apply arith
  done

lemma byte_order:
  fixes b :: byte
  shows "(b \<le> numeral k) = (unat b \<le> unat (numeral k :: byte))"
    and "(numeral k \<le> b) = (unat (numeral k :: byte) \<le> unat b)"
    and "(b < numeral k) = (unat b < unat (numeral k :: byte))"
    and "(numeral k < b) = (unat (numeral k :: byte) < unat b)"
    and "(b = numeral k) = (unat b = unat (numeral k :: byte))"
  by (simp_all add: word_le_nat_alt word_less_nat_alt word_unat_eq_iff)

lemma DecodeRune_wellformed:
  assumes "wellformed_len p = Some k"
  shows "\<exists>r. DecodeRune p = (r, k) \<and> \<not> (r = RuneError \<and> k = 1)"
proof (cases p)
  case Nil
  with assms show ?thesis by (simp add: wellformed_len_def)
next
  case (Cons b0 q)
  show ?thesis
  proof (cases b0 rule: first_cases)
    case 1
    then have "b0 < 0x80" by (simp add: byte_order)
    with 1 assms Cons show ?thesis
      by (simp add: wellformed_len_def DecodeRune_ascii ucast_ascii_ne_RuneError)
  next
    case 2
    with assms Cons show ?thesis
      by (auto simp: wellformed_len_def byte_order)
  next
    case 3
    with assms Cons show ?thesis
      by (auto simp: wellformed_len_def DecodeRune_def utf8_consts cont_def byte_order
          split: list.splits if_splits)
  next
    case 4
    with assms Cons show ?thesis
      by (auto simp: wellformed_len_def DecodeRune_def utf8_consts cont_def second3_def byte_order
          split: list.splits if_splits)
  next
    case 5
    with assms Cons show ?thesis
      by (auto simp: wellformed_len_def DecodeRune_def utf8_consts cont_def second3_def byte_order
          split: list.splits if_splits)
  next
    case 6
    with assms Cons show ?thesis
      by (auto simp: wellformed_len_def DecodeRune_def utf8_consts cont_def second3_def byte_order
          split: list.splits if_splits)
  next
    case 7
    with assms Cons show ?thesis
      by (auto simp: wellformed_len_def DecodeRune_def utf8_consts cont_def second3_def byte_order
          split: list.splits if_splits)
  next
    case 8
    with assms Cons show ?thesis
      by (auto simp: wellformed_len_def DecodeRune_def utf8_consts cont_def second4_def byte_order
          split: list.splits if_splits)
  next
    case 9
    with assms Cons show ?thesis
      by (auto simp: wellformed_len_def DecodeRune_def utf8_consts cont_def second4_def byte_order
          split: list.splits if_splits)
  next
    case 10
    with assms Cons show ?thesis
      by (auto simp: wellformed_len_def DecodeRune_def utf8_consts cont_def second4_def byte_order
          split: list.splits if_splits)
  next
    case 11
    with assms Cons show ?thesis
      by (auto simp: wellformed_len_def byte_order)
  qed
qed


lemma DecodeRune_not_wellformed:
  assumes "wellformed_len p = None" and "p \<noteq> []"
  shows "DecodeRune p = (RuneError, 1) \<and> FullRune p = (\<not> truncated p)"
proof (cases p)
  case Nil
  with assms show ?thesis by simp
next
  case (Cons b0 q)
  show ?thesis
  proof (cases b0 rule: first_cases)
    case 1
    with assms Cons show ?thesis
      by (simp add: wellformed_len_def)
  next
    case 2
    with assms Cons show ?thesis
      by (auto simp: wellformed_len_def DecodeRune_def FullRune_def truncated_def utf8_consts
          byte_order split: list.splits)
  next
    case 3
    with assms Cons show ?thesis
      by (auto simp: wellformed_len_def DecodeRune_def FullRune_def truncated_def utf8_consts
          cont_def second3_def byte_order split: list.splits if_splits)
  next
    case 4
    with assms Cons show ?thesis
      by (auto simp: wellformed_len_def DecodeRune_def FullRune_def truncated_def utf8_consts
          cont_def second3_def byte_order split: list.splits if_splits)
  next
    case 5
    with assms Cons show ?thesis
      by (auto simp: wellformed_len_def DecodeRune_def FullRune_def truncated_def utf8_consts
          cont_def second3_def byte_order split: list.splits if_splits)
  next
    case 6
    with assms Cons show ?thesis
      by (auto simp: wellformed_len_def DecodeRune_def FullRune_def truncated_def utf8_consts
          cont_def second3_def byte_order split: list.splits if_splits)
  next
    case 7
    with assms Cons show ?thesis
      by (auto simp: wellformed_len_def DecodeRune_def FullRune_def truncated_def utf8_consts
          cont_def second3_def byte_order split: list.splits if_splits)
  next
    case 8
    with assms Cons show ?thesis
      by (auto simp: wellformed_len_def DecodeRune_def FullRune_def truncated_def utf8_consts
          cont_def second4_def byte_order split: list.splits if_splits)
  next
    case 9
    with assms Cons show ?thesis
      by (auto simp: wellformed_len_def DecodeRune_def FullRune_def truncated_def utf8_consts
          cont_def second4_def byte_order split: list.splits if_splits)
  next
    case 10
    with assms Cons show ?thesis
      by (auto simp: wellformed_len_def DecodeRune_def FullRune_def truncated_def utf8_consts
          cont_def second4_def byte_order split: list.splits if_splits)
  next
    case 11
    with assms Cons show ?thesis
      by (auto simp: wellformed_len_def DecodeRune_def FullRune_def truncated_def utf8_consts
          byte_order split: list.splits)
  qed
qed

lemma utf8Bad_spec: "utf8Bad p = invalid_sequence p"
proof (induction p rule: invalid_sequence.induct)
  case (1 p)
  show ?case
  proof (cases "p = []")
    case True
    then show ?thesis by (subst invalid_sequence.simps) (simp add: utf8Bad_Nil)
  next
    case False
    show ?thesis
    proof (cases "wellformed_len p")
      case None
      from DecodeRune_not_wellformed [OF None False] None False show ?thesis
        by (subst invalid_sequence.simps, subst utf8Bad.simps) simp
    next
      case (Some k)
      from DecodeRune_wellformed [OF Some] obtain r
        where r: "DecodeRune p = (r, k)" "\<not> (r = RuneError \<and> k = 1)" by blast
      from "1.IH" [OF False Some] have "utf8Bad (drop k p) = invalid_sequence (drop k p)" .
      with r Some False show ?thesis
        by (subst invalid_sequence.simps, subst utf8Bad.simps) auto
    qed
  qed
qed

lemma isBin_spec: "isBin w = (0 \<in> set w \<or> invalid_sequence w)"
  by (simp add: isBin_list utf8Bad_spec)

lemma wellformed_len_cases:
  assumes "wellformed_len p = Some k"
  obtains (one) b0 q where "p = b0 # q" "b0 \<le> 0x7F" "k = 1"
  | (two) b0 b1 q where "p = b0 # b1 # q" "\<not> b0 \<le> 0x7F" "0xC2 \<le> b0" "b0 \<le> 0xDF" "cont b1"
      "k = 2"
  | (three) b0 b1 b2 q where "p = b0 # b1 # b2 # q" "\<not> b0 \<le> 0x7F"
      "\<not> (0xC2 \<le> b0 \<and> b0 \<le> 0xDF)" "0xE0 \<le> b0" "b0 \<le> 0xEF" "second3 b0 b1" "cont b2" "k = 3"
  | (four) b0 b1 b2 b3 q where "p = b0 # b1 # b2 # b3 # q" "\<not> b0 \<le> 0x7F"
      "\<not> (0xC2 \<le> b0 \<and> b0 \<le> 0xDF)" "\<not> (0xE0 \<le> b0 \<and> b0 \<le> 0xEF)" "0xF0 \<le> b0" "b0 \<le> 0xF4"
      "second4 b0 b1" "cont b2" "cont b3" "k = 4"
  using assms
  by (auto simp: wellformed_len_def split: list.splits if_splits)

lemma wellformed_len_append:
  assumes "wellformed_len p = Some k"
  shows "wellformed_len (p @ q) = Some k"
  using assms
  by (cases rule: wellformed_len_cases) (simp_all add: wellformed_len_def)

lemma truncated_not_wellformed: "truncated t \<Longrightarrow> t \<noteq> [] \<and> wellformed_len t = None"
  by (auto simp: truncated_def wellformed_len_def byte_order split: list.splits if_splits)

lemma truncated_not_invalid: "truncated t \<Longrightarrow> \<not> invalid_sequence t"
  using truncated_not_wellformed [of t] by (subst invalid_sequence.simps) auto

lemma invalid_sequence_Nil: "\<not> invalid_sequence []"
  by (subst invalid_sequence.simps) simp

lemma invalid_sequence_after_wellformed:
  "wellformed s \<Longrightarrow> invalid_sequence (s @ t) = invalid_sequence t"
proof (induction s rule: wellformed.induct)
  case (1 p)
  show ?case
  proof (cases "p = []")
    case True
    then show ?thesis by simp
  next
    case False
    with "1.prems" obtain k where k: "wellformed_len p = Some k" "wellformed (drop k p)"
      by (subst (asm) wellformed.simps) (auto split: option.splits)
    from wellformed_len_pos [OF k(1)] have kl: "k \<le> length p" by simp
    from "1.IH" [OF False k(1) k(2)]
    have "invalid_sequence (drop k p @ t) = invalid_sequence t" .
    moreover have "invalid_sequence (p @ t) = invalid_sequence (drop k (p @ t))"
      using False wellformed_len_append [OF k(1), of t]
      by (subst invalid_sequence.simps) simp
    ultimately show ?thesis using kl by simp
  qed
qed

lemma sniffWindow_length: "length (sniffWindow sz bs) \<le> 8192"
  by (simp add: sniffWindow_def sniffSize_def)

lemma wellformed_Nil: "wellformed []"
  by (subst wellformed.simps) simp

lemma wellformed_ascii: "b \<le> 0x7F \<Longrightarrow> wellformed (b # bs) = wellformed bs"
  by (subst wellformed.simps) (simp add: wellformed_len_def)

lemma wellformed_replicate_a: "wellformed (replicate k 0x61)"
  by (induction k) (simp_all add: wellformed_Nil wellformed_ascii)

lemma invalid_a_C0_b: "invalid_sequence [0x61, 0xC0, 0x62]"
  apply (subst invalid_sequence.simps)
  apply (simp add: wellformed_len_def)
  apply (subst invalid_sequence.simps)
  apply (simp add: wellformed_len_def truncated_def)
  done

lemma DecodeRune_E4_B8_AD: "DecodeRune [0xE4, 0xB8, 0xAD] = (0x4E2D, 3)"
  by (simp add: DecodeRune_def utf8_consts)

lemma readLoop_straddling:
  "readLoop [(straddling, ErrNil), ([], EOF)] counter0
     = Inr (Inr \<lparr>lines = 0, words = 1, chars = 8192, inWord = True, lastWasNewline = False,
                 leftover = []\<rparr>)"
proof -
  have "scanBytes [0xE4, 0xB8, 0xAD] (letters 8191 counter0)
        = \<lparr>lines = 0, words = 1, chars = 8192, inWord = True, lastWasNewline = False,
            leftover = []\<rparr>"
    apply (subst scanBytes.simps)
    apply (simp add: DecodeRune_E4_B8_AD RuneError_def scanBytes_Nil)
    apply (simp add: countRune_def letters_def counter0_def IsSpace_def MaxLatin1_def)
    done
  then show ?thesis
    by (simp add: straddling_def processChunk_def counter0_def chunkLoop_scan
        scanBytes_replicate_a)
qed

lemma not_invalid_replicate_a: "\<not> invalid_sequence (replicate k 0x61)"
  using isBin_replicate_a [of k] by (simp add: isBin_spec)

lemma DecodeRune_E4_a: "DecodeRune [0xE4, 0x61] = (RuneError, 1)"
  by (simp add: DecodeRune_def utf8_consts acceptRanges_def locb_def hicb_def)

lemma FullRune_E4_a: "FullRune [0xE4, 0x61]"
  by (simp add: FullRune_def utf8_consts acceptRanges_def locb_def hicb_def)

lemma readLoop_nul_beyond:
  "readLoop [(replicate 8192 0x61 @ [0x00], ErrNil), ([], EOF)] counter0
     = Inr (Inr \<lparr>lines = 0, words = 1, chars = 8193, inWord = True, lastWasNewline = False,
                 leftover = []\<rparr>)"
proof -
  have "scanBytes [0x00] (letters 8192 counter0)
        = \<lparr>lines = 0, words = 1, chars = 8193, inWord = True, lastWasNewline = False,
            leftover = []\<rparr>"
    by (simp add: scanBytes_ascii scanBytes_Nil countRune_def letters_def counter0_def
        IsSpace_def MaxLatin1_def)
  then show ?thesis
    by (simp add: processChunk_def counter0_def chunkLoop_scan scanBytes_replicate_a)
qed

lemma readLoop_cut_then_invalid:
  "readLoop [(replicate 8191 0x61 @ [0xE4, 0x61], ErrNil), ([], EOF)] counter0
     = Inr (Inr \<lparr>lines = 0, words = 1, chars = 8193, inWord = True, lastWasNewline = False,
                 leftover = []\<rparr>)"
proof -
  have "scanBytes [0xE4, 0x61] (letters 8191 counter0)
        = \<lparr>lines = 0, words = 1, chars = 8193, inWord = True, lastWasNewline = False,
            leftover = []\<rparr>"
    apply (subst scanBytes.simps)
    apply (simp add: DecodeRune_E4_a FullRune_E4_a scanBytes_ascii scanBytes_Nil)
    apply (simp add: countRune_def letters_def counter0_def IsSpace_def MaxLatin1_def
        RuneError_def)
    done
  then show ?thesis
    by (simp add: processChunk_def counter0_def chunkLoop_scan scanBytes_replicate_a)
qed

lemma readLoop_grown:
  "readLoop [([0x61, 0x62, 0x00], ErrNil), ([], EOF)] counter0
     = Inr (Inr \<lparr>lines = 0, words = 1, chars = 3, inWord = True, lastWasNewline = False,
                 leftover = []\<rparr>)"
  by (simp add: processChunk_def counter0_def chunkLoop_scan scanBytes_ascii scanBytes_Nil
      countRune_def IsSpace_def MaxLatin1_def)

lemma sem_invariant:
  "reachable h fs files jobs s
   \<Longrightarrow> sem s = length (workers s) + holding (main s) \<and> sem s \<le> jobs"
proof (induction rule: reachable.induct)
  case start
  show ?case by (simp add: dispatcher0_def)
next
  case (next_step s s')
  from next_step.hyps(2) next_step.IH show ?case
    by (cases rule: step.cases) auto
qed

lemma executing_le_workers: "executing s \<le> length (workers s)"
  by (simp add: executing_def)

lemma wg_invariant:
  "reachable h fs files jobs s \<Longrightarrow> wg s = int (executing s) + adding (main s)"
proof (induction rule: reachable.induct)
  case start
  show ?case by (simp add: dispatcher0_def executing_def)
next
  case (next_step s s')
  from next_step.hyps(2) next_step.IH show ?case
    by (cases rule: step.cases) (auto simp: executing_def)
qed

lemma adding_ge0: "0 \<le> adding m"
  by (cases m) simp_all

lemma closer_invariant:
  "reachable h fs files jobs s
   \<Longrightarrow> (closer s = NotStarted) = looping (main s)
     \<and> (closer s = Closing \<or> closer s = Exited \<longrightarrow> wg s = 0)
     \<and> (results_closed s \<longrightarrow> closer s = Exited)
     \<and> (main s = Finished \<longrightarrow> results s = [] \<and> results_closed s)"
proof (induction rule: reachable.induct)
  case start
  show ?case by (simp add: dispatcher0_def)
next
  case (next_step s s')
  note wgs = wg_invariant [OF next_step.hyps(1)] adding_ge0 [of "main s"]
  from next_step.hyps(2) next_step.IH wgs show ?case
    by (cases rule: step.cases) (auto simp: executing_def)
qed

lemma results_invariant:
  "reachable h fs files jobs s
   \<Longrightarrow> started (length files) (main s) \<le> length files
     \<and> (main s = Added (started (length files) (main s))
          \<or> main s = Acquired (started (length files) (main s))
          \<longrightarrow> started (length files) (main s) < length files)
     \<and> mset (map (outcome h fs) (take (started (length files) (main s)) files))
         = mset (map Inr (stats s @ results s))
           + mset (map (outcome h fs) (map fst (filter (\<lambda>w. snd w = Analyzing) (workers s))))"
proof (induction rule: reachable.induct)
  case start
  show ?case by (simp add: dispatcher0_def)
next
  case (next_step s s')
  from next_step.hyps(2) next_step.IH show ?case
    by (cases rule: step.cases) (auto simp: outcome_def take_Suc_conv_app_nth)
qed

lemma dispatcher_complete:
  assumes "reachable h fs files jobs s" and "main s = Finished"
  shows "mset (map Inr (stats s)) = mset (map (\<lambda>p. AnalyzeFile h p (fs p)) files)"
proof -
  from closer_invariant [OF assms(1)] assms(2)
  have "results s = []" "wg s = 0" by auto
  with wg_invariant [OF assms(1)] assms(2) have "executing s = 0" by simp
  then have "filter (\<lambda>w. snd w = Analyzing) (workers s) = []"
    by (auto simp: executing_def filter_empty_conv)
  with results_invariant [OF assms(1)] assms(2) \<open>results s = []\<close>
  show ?thesis by (simp add: outcome_def [abs_def])
qed


lemma panic_never_finishes:
  assumes "AnalyzeFile h p (fs p) = Inl e" and "p \<in> set files"
    and "reachable h fs files jobs s"
  shows "main s \<noteq> Finished"
proof
  assume "main s = Finished"
  from dispatcher_complete [OF assms(3) this]
  have "set_mset (mset (map Inr (stats s)))
        = set_mset (mset (map (\<lambda>p. AnalyzeFile h p (fs p)) files))" by simp
  then have "Inr ` set (stats s) = (\<lambda>p. AnalyzeFile h p (fs p)) ` set files" by simp
  with assms(1,2) have "Inl e \<in> Inr ` set (stats s)" by force
  then show False by auto
qed

subsection \<open>Runs of the dispatcher end, and end well unless a worker panics\<close>

lemma loop_bound:
  "reachable h fs files jobs s
   \<Longrightarrow> (main s = Loop k \<longrightarrow> k \<le> length files)
     \<and> (main s = Added k \<or> main s = Acquired k \<longrightarrow> k < length files)"
  using results_invariant [of h fs files jobs s] by auto

lemma step_decreases:
  assumes "reachable h fs files jobs s" and "step h fs files jobs s s'"
  shows "work_left (length files) s' < work_left (length files) s"
  using assms(2)
proof (cases rule: step.cases)
  case (go_worker k)
  with loop_bound [OF assms(1), of k] have "k < length files" by simp
  then have "7 * (length files - (k + 1)) + 7 = 7 * (length files - k)" by simp
  with go_worker show ?thesis by (simp add: work_left_def)
next
  case (go_closer k)
  with closer_invariant [OF assms(1)] have "closer s = NotStarted" by simp
  with go_closer show ?thesis by (simp add: work_left_def)
qed (auto simp: work_left_def)

lemma closer_exited:
  "reachable h fs files jobs s \<Longrightarrow> closer s = Exited \<longrightarrow> results_closed s"
proof (induction rule: reachable.induct)
  case start
  show ?case by (simp add: dispatcher0_def)
next
  case (next_step s s')
  from next_step.hyps(2) next_step.IH show ?case
    by (cases rule: step.cases) auto
qed

lemma results_room:
  assumes "reachable h fs files jobs s" and "(p, Analyzing) \<in> set (workers s)"
  shows "length (results s) < length files"
proof -
  let ?A = "filter (\<lambda>w. snd w = Analyzing) (workers s)"
  from assms(2) have "?A \<noteq> []" by (force simp: filter_empty_conv)
  moreover from results_invariant [OF assms(1)]
  have "size (mset (map (outcome h fs) (take (started (length files) (main s)) files)))
        = size (mset (map Inr (stats s @ results s))
           + mset (map (outcome h fs) (map fst ?A)))"
    and "started (length files) (main s) \<le> length files" by simp_all
  moreover have "size {#x \<in># mset (workers s). snd x = Analyzing#} = length ?A"
    by (simp flip: mset_filter)
  ultimately show ?thesis by (cases ?A) simp_all
qed

lemma worker_can_step:
  assumes "reachable h fs files jobs s" and "crashed s = None"
    and "(p, pc) \<in> set (workers s)"
  shows "\<exists>s'. step h fs files jobs s s'"
proof -
  from assms(3) obtain ws ws' where w: "workers s = ws @ (p, pc) # ws'"
    by (auto dest: split_list)
  show ?thesis
  proof (cases pc)
    case Analyzing
    show ?thesis
    proof (cases "AnalyzeFile h p (fs p)")
      case (Inl e)
      from step.panics [of s ws p ws' h fs e files jobs] assms(2) w Analyzing Inl
      show ?thesis by blast
    next
      case (Inr r)
      from results_room [OF assms(1)] assms(3) Analyzing
      have "length (results s) < length files" by simp
      from step.out_send [of s ws p ws' h fs r files jobs] assms(2) w Analyzing Inr this
      show ?thesis by blast
    qed
  next
    case Sent
    from step.wg_Done [OF assms(2) w [unfolded Sent]] show ?thesis by blast
  next
    case Returned
    from sem_invariant [OF assms(1)] w have "sem s > 0" by simp
    from step.sem_recv [OF assms(2) w [unfolded Returned] this] show ?thesis by blast
  qed
qed

lemma dispatcher_progress:
  assumes "reachable h fs files jobs s" and "crashed s = None" and "main s \<noteq> Finished"
    and "1 \<le> jobs"
  shows "\<exists>s'. step h fs files jobs s s'"
proof (cases "main s")
  case (Loop k)
  show ?thesis
  proof (cases "k < length files")
    case True
    from step.wg_Add [OF assms(2) Loop True] show ?thesis by blast
  next
    case False
    from step.go_closer [OF assms(2) Loop False] show ?thesis by blast
  qed
next
  case (Added k)
  show ?thesis
  proof (cases "sem s < jobs")
    case True
    from step.sem_send [OF assms(2) Added True] show ?thesis by blast
  next
    case False
    with sem_invariant [OF assms(1)] Added assms(4) have "workers s \<noteq> []" by auto
    then obtain w where "w \<in> set (workers s)" by (cases "workers s") auto
    moreover obtain p pc where "w = (p, pc)" by (cases w)
    ultimately have "(p, pc) \<in> set (workers s)" by simp
    from worker_can_step [OF assms(1,2) this] show ?thesis .
  qed
next
  case (Acquired k)
  from step.go_worker [OF assms(2) Acquired] show ?thesis by blast
next
  case Collecting
  show ?thesis
  proof (cases "results s")
    case (Cons r rs)
    from step.range_recv [OF assms(2) Collecting Cons] show ?thesis by blast
  next
    case Nil
    show ?thesis
    proof (cases "closer s")
      case NotStarted
      with closer_invariant [OF assms(1)] Collecting show ?thesis by simp
    next
      case Waiting
      show ?thesis
      proof (cases "wg s = 0")
        case True
        from step.wg_Wait [OF assms(2) Waiting True] show ?thesis by blast
      next
        case False
        with wg_invariant [OF assms(1)] Collecting have "executing s \<noteq> 0" by simp
        then obtain w where "w \<in> set (workers s)"
          by (auto simp: executing_def filter_empty_conv)
        moreover obtain p pc where "w = (p, pc)" by (cases w)
        ultimately have "(p, pc) \<in> set (workers s)" by simp
        from worker_can_step [OF assms(1,2) this] show ?thesis .
      qed
    next
      case Closing
      from step.close_results [OF assms(2) Closing] show ?thesis by blast
    next
      case Exited
      with closer_exited [OF assms(1)] have "results_closed s" by simp
      from step.range_end [OF assms(2) Collecting Nil this] show ?thesis by blast
    qed
  qed
next
  case Finished
  with assms(3) show ?thesis by simp
qed

lemma dispatcher_ends:
  assumes "reachable h fs files jobs s" and "1 \<le> jobs"
    and "\<not> (\<exists>s'. step h fs files jobs s s')"
  shows "crashed s \<noteq> None
     \<or> (main s = Finished
          \<and> mset (map Inr (stats s)) = mset (map (\<lambda>p. AnalyzeFile h p (fs p)) files))"
proof (cases "crashed s = None")
  case False
  then show ?thesis by simp
next
  case True
  with dispatcher_progress [OF assms(1) True _ assms(2)] assms(3)
  have "main s = Finished" by blast
  with dispatcher_complete [OF assms(1) this] show ?thesis by simp
qed

lemma reachable_running_one: "reachable h fs [''a.txt''] 1 running_one"
proof -
  let ?R = "reachable h fs [''a.txt''] 1" and ?S = "step h fs [''a.txt''] 1"
  let ?s1 = "dispatcher0\<lparr>main := Added 0, wg := 1\<rparr>"
  let ?s2 = "?s1\<lparr>main := Acquired 0, sem := 1\<rparr>"
  have "?S dispatcher0 ?s1"
    using step.wg_Add [of dispatcher0 0 "[''a.txt'']" h fs 1] by (simp add: dispatcher0_def)
  then have 1: "?R ?s1" using reachable.start reachable.next_step by blast
  have "?S ?s1 ?s2"
    using step.sem_send [of ?s1 0 1 h fs "[''a.txt'']"] by (simp add: dispatcher0_def)
  with 1 have 2: "?R ?s2" using reachable.next_step by blast
  have "?S ?s2 running_one"
    using step.go_worker [of ?s2 0 h fs "[''a.txt'']" 1]
    by (simp add: dispatcher0_def running_one_def)
  with 2 show ?thesis using reachable.next_step by blast
qed

lemma reachable_running_two: "reachable h fs [''ok.txt'', ''big.txt''] 2 running_two"
proof -
  let ?F = "[''ok.txt'', ''big.txt'']"
  let ?R = "reachable h fs ?F 2" and ?S = "step h fs ?F 2"
  let ?s1 = "dispatcher0\<lparr>main := Added 0, wg := 1\<rparr>"
  let ?s2 = "?s1\<lparr>main := Acquired 0, sem := 1\<rparr>"
  let ?s3 = "?s2\<lparr>main := Loop 1, workers := [(''ok.txt'', Analyzing)]\<rparr>"
  let ?s4 = "?s3\<lparr>main := Added 1, wg := 2\<rparr>"
  let ?s5 = "?s4\<lparr>main := Acquired 1, sem := 2\<rparr>"
  have "?S dispatcher0 ?s1"
    using step.wg_Add [of dispatcher0 0 ?F h fs 2] by (simp add: dispatcher0_def)
  then have 1: "?R ?s1" using reachable.start reachable.next_step by blast
  have "?S ?s1 ?s2"
    using step.sem_send [of ?s1 0 2 h fs ?F] by (simp add: dispatcher0_def)
  with 1 have 2: "?R ?s2" using reachable.next_step by blast
  have "?S ?s2 ?s3"
    using step.go_worker [of ?s2 0 h fs ?F 2] by (simp add: dispatcher0_def)
  with 2 have 3: "?R ?s3" using reachable.next_step by blast
  have "?S ?s3 ?s4"
    using step.wg_Add [of ?s3 1 ?F h fs 2] by (simp add: dispatcher0_def)
  with 3 have 4: "?R ?s4" using reachable.next_step by blast
  have "?S ?s4 ?s5"
    using step.sem_send [of ?s4 1 2 h fs ?F] by (simp add: dispatcher0_def numeral_2_eq_2)
  with 4 have 5: "?R ?s5" using reachable.next_step by blast
  have "?S ?s5 running_two"
    using step.go_worker [of ?s5 1 h fs ?F 2]
    by (simp add: dispatcher0_def running_two_def numeral_2_eq_2)
  with 5 show ?thesis using reachable.next_step by blast
qed

lemma big_file_panics:
  "AnalyzeFile h ''big.txt'' (two_files ''big.txt'') = Inl (SliceBoundsOutOfRange (- 1) 1)"
  using sniff_big [of "[0xE4, 0xB8, 0x61]"]
  by (simp add: two_files_def AnalyzeFile_def plain_file_def processChunk_first
      processChunk_second)

lemma FullRune_wellformed:
  assumes "wellformed_len p = Some k"
  shows "FullRune p"
  using assms
proof (cases rule: wellformed_len_cases)
  case (one b0 q)
  then show ?thesis
    by (simp add: FullRune_def first_def as_def byte_order)
next
  case (two b0 b1 q)
  then show ?thesis
    by (cases b0 rule: first_cases) (simp_all add: FullRune_def utf8_consts byte_order)
next
  case (three b0 b1 b2 q)
  then show ?thesis
    by (cases b0 rule: first_cases) (simp_all add: FullRune_def utf8_consts byte_order)
next
  case (four b0 b1 b2 b3 q)
  then show ?thesis
    by (cases b0 rule: first_cases) (simp_all add: FullRune_def utf8_consts byte_order)
qed

lemma truncated_length: "truncated p \<Longrightarrow> p \<noteq> [] \<and> length p \<le> 3"
  by (auto simp: truncated_def split: list.splits)

lemma not_FullRune_truncated: "p \<noteq> [] \<Longrightarrow> \<not> FullRune p \<Longrightarrow> truncated p"
proof -
  assume a: "p \<noteq> []" "\<not> FullRune p"
  then have "wellformed_len p = None"
    using FullRune_wellformed [of p] by (cases "wellformed_len p") auto
  from DecodeRune_not_wellformed [OF this a(1)] a(2) show ?thesis by simp
qed

lemma not_FullRune_short: "\<not> FullRune p \<Longrightarrow> length p \<le> 3"
  using not_FullRune_truncated [of p] truncated_length [of p] by (cases "p = []") auto

lemma not_FullRune_DecodeRune:
  "p \<noteq> [] \<Longrightarrow> \<not> FullRune p \<Longrightarrow> DecodeRune p = (RuneError, 1)"
proof -
  assume a: "p \<noteq> []" "\<not> FullRune p"
  then have "wellformed_len p = None"
    using FullRune_wellformed [of p] by (cases "wellformed_len p") auto
  from DecodeRune_not_wellformed [OF this a(1)] show ?thesis by simp
qed

lemma DecodeRune_size_le: "p \<noteq> [] \<Longrightarrow> DecodeRune p = (r, n) \<Longrightarrow> n \<le> length p"
proof (cases "wellformed_len p")
  case None
  assume "p \<noteq> []" "DecodeRune p = (r, n)"
  with DecodeRune_not_wellformed [OF None] show ?thesis by (cases p) auto
next
  case (Some k)
  assume "p \<noteq> []" "DecodeRune p = (r, n)"
  with DecodeRune_wellformed [OF Some] wellformed_len_pos [OF Some] show ?thesis by auto
qed

lemma DecodeRune_valid_Full:
  "p \<noteq> [] \<Longrightarrow> DecodeRune p = (r, n) \<Longrightarrow> \<not> (r = RuneError \<and> n = 1) \<Longrightarrow> FullRune p"
  using not_FullRune_DecodeRune [of p] by auto


lemma invalid_complete_append:
  assumes "p \<noteq> []" and "wellformed_len p = None" and "\<not> truncated p"
  shows "wellformed_len (p @ q) = None \<and> \<not> truncated (p @ q)"
proof -
  from assms(1) obtain b0 p1 where p: "p = b0 # p1" by (cases p) auto
  show ?thesis
  proof (cases p1)
    case Nil
    with p assms(2,3) show ?thesis
      by (auto simp: wellformed_len_def truncated_def byte_order split: if_splits list.splits)
  next
    case c1: (Cons b1 p2)
    show ?thesis
    proof (cases p2)
      case Nil
      with p c1 assms(2,3) show ?thesis
        by (auto simp: wellformed_len_def truncated_def byte_order split: if_splits list.splits)
    next
      case c2: (Cons b2 p3)
      show ?thesis
      proof (cases p3)
        case Nil
        with p c1 c2 assms(2,3) show ?thesis
          by (auto simp: wellformed_len_def truncated_def byte_order
              split: if_splits list.splits)
      next
        case c3: (Cons b3 p4)
        with p c1 c2 assms(2,3) show ?thesis
          by (auto simp: wellformed_len_def truncated_def split: if_splits list.splits)
      qed
    qed
  qed
qed


lemma DecodeRune_append_wellformed:
  assumes "wellformed_len p = Some k"
  shows "DecodeRune (p @ q) = DecodeRune p"
  using assms
proof (cases rule: wellformed_len_cases)
  case (one b0 p1)
  then have "b0 < 0x80" by (simp add: byte_order)
  with one show ?thesis by (simp add: DecodeRune_ascii)
next
  case (two b0 b1 p1)
  then show ?thesis
    by (cases b0 rule: first_cases) (simp_all add: DecodeRune_def utf8_consts byte_order)
next
  case (three b0 b1 b2 p1)
  then show ?thesis
    by (cases b0 rule: first_cases) (simp_all add: DecodeRune_def utf8_consts byte_order)
next
  case (four b0 b1 b2 b3 p1)
  then show ?thesis
    by (cases b0 rule: first_cases) (simp_all add: DecodeRune_def utf8_consts byte_order)
qed

lemma FullRune_append:
  assumes "FullRune p"
  shows "DecodeRune (p @ q) = DecodeRune p \<and> FullRune (p @ q)"
proof (cases "wellformed_len p")
  case (Some k)
  from FullRune_wellformed [OF wellformed_len_append [OF Some, of q]]
    DecodeRune_append_wellformed [OF Some, of q]
  show ?thesis by simp
next
  case None
  from assms have ne: "p \<noteq> []" by (auto simp: FullRune_def)
  from DecodeRune_not_wellformed [OF None ne] assms
  have d: "DecodeRune p = (RuneError, 1)" and nt: "\<not> truncated p" by simp_all
  from invalid_complete_append [OF ne None nt, of q]
  have "wellformed_len (p @ q) = None" "\<not> truncated (p @ q)" by simp_all
  with DecodeRune_not_wellformed [of "p @ q"] ne d show ?thesis by simp
qed

lemma take4_FullRune: "length p \<ge> 4 \<Longrightarrow> FullRune (take 4 p)"
  using not_FullRune_short [of "take 4 p"] by auto

lemma DecodeRune_take4: "DecodeRune (take 4 p) = DecodeRune p"
proof (cases "length p \<ge> 4")
  case True
  from FullRune_append [OF take4_FullRune [OF True], of "drop 4 p"] show ?thesis by simp
next
  case False
  then show ?thesis by simp
qed

lemma FullRune_take4: "FullRune (take 4 p) = FullRune p"
proof (cases "length p \<ge> 4")
  case True
  from FullRune_append [OF take4_FullRune [OF True], of "drop 4 p"] take4_FullRune [OF True]
  show ?thesis by simp
next
  case False
  then show ?thesis by simp
qed

text \<open>\<open>truncated\<close> is what its name says: the beginning of a well-formed sequence, with
  something missing.\<close>

lemma truncated_is_cut_sequence:
  assumes "truncated p"
  shows "\<exists>q. q \<noteq> [] \<and> wellformed_len (p @ q) = Some (length (p @ q))"
proof -
  from assms consider
      (a) b0 where "p = [b0]" "0xC2 \<le> b0" "b0 \<le> 0xF4"
    | (b) b0 b1 where "p = [b0, b1]" "0xE0 \<le> b0" "b0 \<le> 0xEF" "second3 b0 b1"
    | (c) b0 b1 where "p = [b0, b1]" "0xF0 \<le> b0" "b0 \<le> 0xF4" "second4 b0 b1"
    | (d) b0 b1 b2 where "p = [b0, b1, b2]" "0xF0 \<le> b0" "b0 \<le> 0xF4" "second4 b0 b1" "cont b2"
    by (auto simp: truncated_def split: list.splits)
  then show ?thesis
  proof cases
    case a
    let ?q = "if b0 \<le> 0xDF then [0x80]
              else if b0 = 0xE0 then [0xA0, 0x80]
              else if b0 \<le> 0xEF then [0x80, 0x80]
              else if b0 = 0xF0 then [0x90, 0x80, 0x80]
              else [0x80, 0x80, 0x80 :: byte]"
    from a have "?q \<noteq> [] \<and> wellformed_len (p @ ?q) = Some (length (p @ ?q))"
      by (auto simp: wellformed_len_def cont_def second3_def second4_def byte_order)
    then show ?thesis by blast
  next
    case b
    then have "wellformed_len (p @ [0x80]) = Some (length (p @ [0x80]))"
      by (auto simp: wellformed_len_def cont_def byte_order)
    then show ?thesis by blast
  next
    case c
    then have "wellformed_len (p @ [0x80, 0x80]) = Some (length (p @ [0x80, 0x80]))"
      by (auto simp: wellformed_len_def cont_def byte_order)
    then show ?thesis by blast
  next
    case d
    then have "wellformed_len (p @ [0x80]) = Some (length (p @ [0x80]))"
      by (auto simp: wellformed_len_def cont_def byte_order)
    then show ?thesis by blast
  qed
qed

lemma cut_sequence_is_truncated:
  assumes "p \<noteq> []" and "q \<noteq> []" and "wellformed_len (p @ q) = Some (length (p @ q))"
  shows "truncated p"
  using assms(3)
proof (cases rule: wellformed_len_cases)
  case (one b0 t)
  with assms(1,2) show ?thesis by (cases p) auto
next
  case (two b0 b1 t)
  with assms(1,2) have "p = [b0]" by (cases p; cases "tl p") auto
  with two show ?thesis by (simp add: truncated_def byte_order)
next
  case (three b0 b1 b2 t)
  with assms(1,2) have "p = [b0] \<or> p = [b0, b1]"
    by (cases p; cases "tl p"; cases "tl (tl p)") auto
  with three show ?thesis by (auto simp: truncated_def byte_order)
next
  case (four b0 b1 b2 b3 t)
  with assms(1,2) have "p = [b0] \<or> p = [b0, b1] \<or> p = [b0, b1, b2]"
    by (cases p; cases "tl p"; cases "tl (tl p)"; cases "tl (tl (tl p))") auto
  with four show ?thesis by (auto simp: truncated_def byte_order)
qed

lemma truncated_iff_cut_sequence:
  "truncated p
   = (p \<noteq> [] \<and> (\<exists>q. q \<noteq> [] \<and> wellformed_len (p @ q) = Some (length (p @ q))))"
  using truncated_is_cut_sequence [of p] cut_sequence_is_truncated [of p] truncated_length [of p]
  by blast

subsection \<open>Chunk boundaries\<close>

text \<open>A chunk that does not panic leaves the counters one uninterrupted pass would have
  left (\<open>processChunk_resume\<close>), so a chunking that does not panic gives the record of the
  unchunked file (\<open>chunking_transparent_unless_panic\<close>); and no chunking of well-formed
  UTF-8 panics (\<open>chunking_transparent_wellformed\<close>).\<close>

lemma countRune_leftover: "leftover (countRune st r) = leftover st"
  by (simp add: countRune_def Let_def)

lemma countRune_leftover_update:
  "countRune (st\<lparr>leftover := l\<rparr>) r = (countRune st r)\<lparr>leftover := l\<rparr>"
  by (simp add: countRune_def Let_def)

lemma scanBytes_stash:
  "p \<noteq> [] \<Longrightarrow> \<not> FullRune p \<Longrightarrow> scanBytes p st = st\<lparr>leftover := p\<rparr>"
  using not_FullRune_DecodeRune [of p] not_FullRune_short [of p]
  by (subst scanBytes.simps) simp

lemma FullRune_ne: "FullRune p \<Longrightarrow> p \<noteq> []"
  by (auto simp: FullRune_def)

lemma scanBytes_go:
  "FullRune p \<Longrightarrow> DecodeRune p = (r, n)
   \<Longrightarrow> scanBytes p st = scanBytes (drop n p) (countRune st r)"
  by (subst scanBytes.simps) (simp add: FullRune_ne)

lemma leftover_Nil_update: "leftover st = [] \<Longrightarrow> st\<lparr>leftover := []\<rparr> = st"
  by simp

lemma scanBytes_append:
  "leftover st = [] \<Longrightarrow> scanBytes (a @ b) st = resume (scanBytes a st) b"
proof (induction a st rule: scanBytes.induct)
  case (1 p st)
  show ?case
  proof (cases "p = []")
    case True
    with "1.prems" show ?thesis
      by (simp add: scanBytes_Nil resume_def leftover_Nil_update)
  next
    case False
    show ?thesis
    proof (cases "FullRune p")
      case nf: False
      with False "1.prems" show ?thesis
        by (simp add: scanBytes_stash resume_def leftover_Nil_update)
    next
      case True
      obtain r n where dr: "DecodeRune p = (r, n)" by (cases "DecodeRune p")
      from True have go: "\<not> (r = RuneError \<and> n = 1 \<and> \<not> FullRune p)" by simp
      from DecodeRune_size_le [OF False dr] have nl: "n \<le> length p" .
      from FullRune_append [OF True, of b] dr
      have "scanBytes (p @ b) st = scanBytes (drop n (p @ b)) (countRune st r)"
        by (simp add: scanBytes_go)
      also have "\<dots> = scanBytes (drop n p @ b) (countRune st r)" using nl by simp
      also have "\<dots> = resume (scanBytes (drop n p) (countRune st r)) b"
        using "1.IH" [OF False dr [symmetric] go] "1.prems" by (simp add: countRune_leftover)
      also have "scanBytes (drop n p) (countRune st r) = scanBytes p st"
        using True dr by (simp add: scanBytes_go)
      finally show ?thesis .
    qed
  qed
qed

lemma scanBytes_carry_ok: "leftover st = [] \<Longrightarrow> carry_ok (scanBytes p st)"
proof (induction p st rule: scanBytes.induct)
  case (1 p st)
  show ?case
  proof (cases "p = []")
    case True
    with "1.prems" show ?thesis by (simp add: scanBytes_Nil carry_ok_def)
  next
    case False
    show ?thesis
    proof (cases "FullRune p")
      case nf: False
      with False show ?thesis by (simp add: scanBytes_stash carry_ok_def)
    next
      case True
      obtain r n where dr: "DecodeRune p = (r, n)" by (cases "DecodeRune p")
      from True have go: "\<not> (r = RuneError \<and> n = 1 \<and> \<not> FullRune p)" by simp
      from "1.IH" [OF False dr [symmetric] go] "1.prems" True dr show ?thesis
        by (simp add: scanBytes_go countRune_leftover)
    qed
  qed
qed

lemma resume_carry_ok: "carry_ok (resume st buf)"
  by (simp add: resume_def scanBytes_carry_ok)

lemma resume_Nil: "carry_ok st \<Longrightarrow> resume st [] = st"
  by (cases "leftover st = []") (simp_all add: resume_def carry_ok_def scanBytes_Nil scanBytes_stash)

lemma resume_resume: "resume (resume st a) b = resume st (a @ b)"
  using scanBytes_append [of "st\<lparr>leftover := []\<rparr>" "leftover st @ a" b]
  by (simp add: resume_def)


lemma nat_need: "nat (min (4 - int a) (int b)) = min (4 - a) b"
  by (cases "a \<le> 4") (auto simp: min_def nat_diff_distrib)

lemma processChunk_resume:
  assumes "carry_ok st" and "buf \<noteq> []" and "processChunk buf st = Inr st'"
  shows "st' = resume st buf"
proof (cases "leftover st = []")
  case True
  with assms(3) show ?thesis
    by (simp add: processChunk_def chunkLoop_scan resume_def leftover_Nil_update)
next
  case False
  let ?L = "leftover st"
  let ?need = "min (4 - int (length ?L)) (int (length buf))"
  let ?seq = "?L @ take (nat ?need) buf"
  from False assms(1) have nf: "\<not> FullRune ?L" by (simp add: carry_ok_def)
  from not_FullRune_short [OF nf] have l3: "length ?L \<le> 3" .
  have seq4: "?seq = take 4 (?L @ buf)"
    using l3 by (simp only: nat_need) (auto simp: min_def)
  obtain r n where dr: "DecodeRune ?seq = (r, n)" by (cases "DecodeRune ?seq")
  have dr': "DecodeRune (?L @ buf) = (r, n)"
    using dr DecodeRune_take4 [of "?L @ buf"] by (simp only: seq4)
  have fr': "FullRune (?L @ buf) = FullRune ?seq"
    using FullRune_take4 [of "?L @ buf"] by (simp only: seq4)
  show ?thesis
  proof (cases "FullRune ?seq")
    case nfs: False
    from False have sne: "?seq \<noteq> []" by simp
    from not_FullRune_DecodeRune [OF sne nfs] dr have rn: "r = RuneError" "n = 1" by simp_all
    from not_FullRune_short [OF nfs] l3 False have all: "?seq = ?L @ buf"
      by (auto simp: min_def split: if_splits)
    then have need: "?need = int (length buf)" using l3
      by (auto simp: min_def split: if_splits)
    have "processChunk buf st = chunkLoop buf ?need (st\<lparr>leftover := ?seq\<rparr>)"
      using False dr rn nfs by (simp add: processChunk_def Let_def)
    also have "\<dots> = Inr (st\<lparr>leftover := ?L @ buf\<rparr>)"
      using all by (simp only: need) (simp add: chunkLoop_scan scanBytes_Nil)
    finally have "st' = st\<lparr>leftover := ?L @ buf\<rparr>" using assms(3) by simp
    moreover have "resume st buf = st\<lparr>leftover := ?L @ buf\<rparr>"
      using nfs fr' False by (simp add: resume_def scanBytes_stash)
    ultimately show ?thesis by simp
  next
    case True
    have pc: "processChunk buf st
          = chunkLoop buf (int n - int (length ?L)) ((countRune st r)\<lparr>leftover := []\<rparr>)"
      using False dr True by (simp add: processChunk_def Let_def)
    show ?thesis
    proof (cases "int n - int (length ?L) < 0")
      case neg: True
      with pc assms(3) show ?thesis by (simp add: chunkLoop_neg)
    next
      case nonneg: False
      then have nl: "length ?L \<le> n" by simp
      from pc nonneg assms(3)
      have "st' = scanBytes (drop (n - length ?L) buf) ((countRune st r)\<lparr>leftover := []\<rparr>)"
        by (simp add: chunkLoop_scan nat_diff_distrib)
      moreover have "resume st buf
          = scanBytes (drop n (?L @ buf)) (countRune (st\<lparr>leftover := []\<rparr>) r)"
        using True fr' dr' by (simp add: resume_def scanBytes_go)
      ultimately show ?thesis using nl by (simp add: countRune_leftover_update)
    qed
  qed
qed

lemma readLoop_resume:
  "carry_ok st \<Longrightarrow> readLoop (map (\<lambda>c. (c, ErrNil)) cs) st = Inr (Inr st')
   \<Longrightarrow> st' = resume st (concat cs)"
proof (induction cs arbitrary: st)
  case Nil
  then show ?case by (simp add: resume_Nil)
next
  case (Cons c cs)
  show ?case
  proof (cases "c = []")
    case True
    with Cons show ?thesis by simp
  next
    case False
    with Cons.prems(2) obtain s1 where s1: "processChunk c st = Inr s1"
      "readLoop (map (\<lambda>c. (c, ErrNil)) cs) s1 = Inr (Inr st')"
      by (auto split: sum.splits)
    from processChunk_resume [OF Cons.prems(1) False s1(1)] have r1: "s1 = resume st c" .
    then have "carry_ok s1" by (simp add: resume_carry_ok)
    from Cons.IH [OF this s1(2)] r1 show ?thesis by (simp add: resume_resume)
  qed
qed

lemma readLoop_then_EOF:
  "readLoop (map (\<lambda>c. (c, ErrNil)) cs @ [([], EOF)]) st = readLoop (map (\<lambda>c. (c, ErrNil)) cs) st"
  by (induction cs arbitrary: st) (auto split: sum.splits)

lemma readLoop_no_error:
  "readLoop (map (\<lambda>c. (c, ErrNil)) cs) st \<noteq> Inr (Inl e)"
  by (induction cs arbitrary: st) (auto split: sum.splits)

lemma carry_ok_counter0: "carry_ok counter0"
  by (simp add: carry_ok_def counter0_def)

lemma readLoop_one_chunk:
  "readLoop (map (\<lambda>c. (c, ErrNil)) [buf]) counter0 = Inr (Inr (resume counter0 buf))"
  by (simp add: processChunk_def counter0_def chunkLoop_scan resume_def scanBytes_Nil)

lemma chunking_transparent_unless_panic:
  assumes "AnalyzeFile h path (plain_file cs) = Inr r"
  shows "AnalyzeFile h path (plain_file [concat cs]) = Inr r"
proof (cases "sniffedBinary (int (length (concat cs))) (concat cs)")
  case True
  with assms show ?thesis by (auto simp: AnalyzeFile_def plain_file_def)
next
  case False
  let ?R = "readLoop (map (\<lambda>c. (c, ErrNil)) cs) counter0"
  have "\<exists>st. ?R = Inr (Inr st)"
  proof (cases ?R)
    case (Inl e)
    with assms False show ?thesis
      by (simp add: AnalyzeFile_def plain_file_def readLoop_then_EOF)
  next
    case outer: (Inr x)
    show ?thesis
    proof (cases x)
      case (Inl e)
      with outer readLoop_no_error [of cs counter0 e] show ?thesis by simp
    next
      case (Inr st)
      with outer show ?thesis by simp
    qed
  qed
  then obtain st where st: "?R = Inr (Inr st)" by blast
  from readLoop_resume [OF carry_ok_counter0 st] have "st = resume counter0 (concat cs)" .
  with st readLoop_one_chunk [of "concat cs"] assms False show ?thesis
    using readLoop_then_EOF [of cs counter0] readLoop_then_EOF [of "[concat cs]" counter0]
    by (simp add: AnalyzeFile_def plain_file_def)
qed


lemma wellformed_len_prefix:
  assumes "wellformed_len (p @ q) = Some k" and "k \<le> length p"
  shows "wellformed_len p = Some k"
  using assms(1)
proof (cases rule: wellformed_len_cases)
  case (one b0 t)
  with assms(2) obtain p1 where "p = b0 # p1" by (cases p) auto
  with one show ?thesis by (simp add: wellformed_len_def)
next
  case (two b0 b1 t)
  with assms(2) obtain p1 where "p = b0 # b1 # p1"
    by (cases p; cases "tl p") auto
  with two show ?thesis by (simp add: wellformed_len_def)
next
  case (three b0 b1 b2 t)
  with assms(2) obtain p1 where "p = b0 # b1 # b2 # p1"
    by (cases p; cases "tl p"; cases "tl (tl p)") auto
  with three show ?thesis by (simp add: wellformed_len_def)
next
  case (four b0 b1 b2 b3 t)
  with assms(2) obtain p1 where "p = b0 # b1 # b2 # b3 # p1"
    by (cases p; cases "tl p"; cases "tl (tl p)"; cases "tl (tl (tl p))") auto
  with four show ?thesis by (simp add: wellformed_len_def)
qed

lemma wellformed_step:
  "p \<noteq> [] \<Longrightarrow> wellformed p
   \<Longrightarrow> \<exists>k. wellformed_len p = Some k \<and> wellformed (drop k p)"
  by (subst (asm) wellformed.simps) (auto split: option.splits)

lemma wellformed_carry_longer:
  assumes "L \<noteq> []" and "\<not> FullRune L" and "wellformed (L @ R)"
    and "wellformed_len (L @ R) = Some k"
  shows "length L < k"
proof (rule ccontr)
  assume "\<not> length L < k"
  then have "k \<le> length L" by simp
  from FullRune_wellformed [OF wellformed_len_prefix [OF assms(4) this]] assms(2)
  show False by simp
qed

lemma processChunk_no_panic:
  assumes "carry_ok st" and "buf \<noteq> []" and "wellformed (leftover st @ buf @ R)"
  shows "\<exists>s1. processChunk buf st = Inr s1"
proof (cases "leftover st = []")
  case True
  then show ?thesis by (simp add: processChunk_def chunkLoop_scan)
next
  case False
  let ?L = "leftover st"
  let ?need = "min (4 - int (length ?L)) (int (length buf))"
  let ?seq = "?L @ take (nat ?need) buf"
  from False assms(1) have nf: "\<not> FullRune ?L" by (simp add: carry_ok_def)
  from not_FullRune_short [OF nf] have l3: "length ?L \<le> 3" .
  have seq4: "?seq = take 4 (?L @ buf)"
    using l3 by (simp only: nat_need) (auto simp: min_def)
  obtain r n where dr: "DecodeRune ?seq = (r, n)" by (cases "DecodeRune ?seq")
  have dr': "DecodeRune (?L @ buf) = (r, n)"
    using dr DecodeRune_take4 [of "?L @ buf"] by (simp only: seq4)
  have fr': "FullRune (?L @ buf) = FullRune ?seq"
    using FullRune_take4 [of "?L @ buf"] by (simp only: seq4)
  show ?thesis
  proof (cases "FullRune ?seq")
    case nfs: False
    from False have sne: "?seq \<noteq> []" by simp
    from not_FullRune_DecodeRune [OF sne nfs] dr have rn: "r = RuneError" "n = 1" by simp_all
    have "0 \<le> ?need" using l3 by simp
    then show ?thesis using False dr rn nfs
      by (simp add: processChunk_def Let_def chunkLoop_scan del: min_less_iff_conj)
  next
    case True
    with fr' have full: "FullRune (?L @ buf)" by simp
    from False assms(3) wellformed_step [of "?L @ buf @ R"]
    obtain k where k: "wellformed_len (?L @ buf @ R) = Some k" by auto
    from FullRune_append [OF full, of R] dr'
    have "DecodeRune (?L @ buf @ R) = (r, n)" by simp
    with DecodeRune_wellformed [OF k] have "n = k" by auto
    with wellformed_carry_longer [OF False nf assms(3) k] have "length ?L < n" by simp
    then have "0 \<le> int n - int (length ?L)" by simp
    then show ?thesis using False dr True
      by (simp add: processChunk_def Let_def chunkLoop_scan)
  qed
qed

lemma scanBytes_wellformed_rest:
  "leftover st = [] \<Longrightarrow> wellformed (p @ R) \<Longrightarrow> wellformed (leftover (scanBytes p st) @ R)"
proof (induction p st rule: scanBytes.induct)
  case (1 p st)
  show ?case
  proof (cases "p = []")
    case True
    with "1.prems" show ?thesis by (simp add: scanBytes_Nil)
  next
    case False
    show ?thesis
    proof (cases "FullRune p")
      case nf: False
      with False "1.prems" show ?thesis by (simp add: scanBytes_stash)
    next
      case True
      obtain r n where dr: "DecodeRune p = (r, n)" by (cases "DecodeRune p")
      from True have go: "\<not> (r = RuneError \<and> n = 1 \<and> \<not> FullRune p)" by simp
      from False "1.prems"(2) wellformed_step [of "p @ R"]
      obtain k where k: "wellformed_len (p @ R) = Some k" "wellformed (drop k (p @ R))"
        by auto
      from FullRune_append [OF True, of R] dr have "DecodeRune (p @ R) = (r, n)" by simp
      with DecodeRune_wellformed [OF k(1)] have "n = k" by auto
      moreover from DecodeRune_size_le [OF False dr] have "n \<le> length p" .
      ultimately have "wellformed (drop n p @ R)" using k(2) by simp
      from "1.IH" [OF False dr [symmetric] go _ this] "1.prems"(1)
      have "wellformed (leftover (scanBytes (drop n p) (countRune st r)) @ R)"
        by (simp add: countRune_leftover)
      then show ?thesis using True dr by (simp add: scanBytes_go)
    qed
  qed
qed

lemma readLoop_wellformed:
  "carry_ok st \<Longrightarrow> wellformed (leftover st @ concat cs)
   \<Longrightarrow> \<exists>st'. readLoop (map (\<lambda>c. (c, ErrNil)) cs) st = Inr (Inr st')"
proof (induction cs arbitrary: st)
  case Nil
  show ?case by simp
next
  case (Cons c cs)
  show ?case
  proof (cases "c = []")
    case True
    with Cons show ?thesis by simp
  next
    case False
    from Cons.prems(2) have wf: "wellformed (leftover st @ c @ concat cs)" by simp
    from processChunk_no_panic [OF Cons.prems(1) False wf]
    obtain s1 where s1: "processChunk c st = Inr s1" by blast
    from processChunk_resume [OF Cons.prems(1) False s1] have r1: "s1 = resume st c" .
    then have ok: "carry_ok s1" by (simp add: resume_carry_ok)
    have "wellformed (leftover s1 @ concat cs)"
      using scanBytes_wellformed_rest [of "st\<lparr>leftover := []\<rparr>" "leftover st @ c" "concat cs"]
        wf r1 by (simp add: resume_def)
    from Cons.IH [OF ok this] s1 False show ?thesis by simp
  qed
qed

lemma chunking_transparent_wellformed:
  assumes "wellformed (concat cs)"
  shows "\<exists>r. AnalyzeFile h path (plain_file cs) = Inr r
           \<and> AnalyzeFile h path (plain_file [concat cs]) = Inr r"
proof -
  from readLoop_wellformed [OF carry_ok_counter0, of cs] assms
  obtain st where "readLoop (map (\<lambda>c. (c, ErrNil)) cs) counter0 = Inr (Inr st)"
    by (auto simp: counter0_def)
  then have "\<exists>r. AnalyzeFile h path (plain_file cs) = Inr r"
    by (cases "sniffedBinary (int (length (concat cs))) (concat cs)")
       (simp_all add: AnalyzeFile_def plain_file_def readLoop_then_EOF Let_def)
  then obtain r where "AnalyzeFile h path (plain_file cs) = Inr r" by blast
  with chunking_transparent_unless_panic [OF this] show ?thesis by simp
qed

text \<open>The chunks that panic: two or three bytes are carried, and with the bytes of the
  chunk they make a sequence that is full and not well-formed.\<close>

lemma processChunk_panic_iff:
  assumes "carry_ok st" and "buf \<noteq> []"
  shows "(\<exists>e. processChunk buf st = Inl e)
     = (2 \<le> length (leftover st) \<and> FullRune (leftover st @ buf)
          \<and> wellformed_len (leftover st @ buf) = None)"
proof (cases "leftover st = []")
  case True
  then show ?thesis by (simp add: processChunk_def chunkLoop_scan)
next
  case False
  let ?L = "leftover st"
  let ?need = "min (4 - int (length ?L)) (int (length buf))"
  let ?seq = "?L @ take (nat ?need) buf"
  from False assms(1) have nf: "\<not> FullRune ?L" by (simp add: carry_ok_def)
  from not_FullRune_short [OF nf] have l3: "length ?L \<le> 3" .
  have seq4: "?seq = take 4 (?L @ buf)"
    using l3 by (simp only: nat_need) (auto simp: min_def)
  obtain r n where dr: "DecodeRune ?seq = (r, n)" by (cases "DecodeRune ?seq")
  have dr': "DecodeRune (?L @ buf) = (r, n)"
    using dr DecodeRune_take4 [of "?L @ buf"] by (simp only: seq4)
  have fr': "FullRune (?L @ buf) = FullRune ?seq"
    using FullRune_take4 [of "?L @ buf"] by (simp only: seq4)
  show ?thesis
  proof (cases "FullRune ?seq")
    case nfs: False
    from False have sne: "?seq \<noteq> []" by simp
    from not_FullRune_DecodeRune [OF sne nfs] dr have rn: "r = RuneError" "n = 1" by simp_all
    have "0 \<le> ?need" using l3 by simp
    then have "\<exists>s1. processChunk buf st = Inr s1" using False dr rn nfs
      by (simp add: processChunk_def Let_def chunkLoop_scan del: min_less_iff_conj)
    with nfs fr' show ?thesis by auto
  next
    case True
    have pc: "processChunk buf st
          = chunkLoop buf (int n - int (length ?L)) ((countRune st r)\<lparr>leftover := []\<rparr>)"
      using False dr True by (simp add: processChunk_def Let_def)
    show ?thesis
    proof (cases "wellformed_len (?L @ buf)")
      case None
      from DecodeRune_not_wellformed [OF None] False dr' have "n = 1" by simp
      with pc True fr' None False show ?thesis
        by (cases "2 \<le> length ?L") (auto simp: chunkLoop_neg chunkLoop_scan not_le)
    next
      case (Some k)
      from DecodeRune_wellformed [OF Some] dr' have "n = k" by auto
      moreover have "length ?L < k"
      proof (rule ccontr)
        assume "\<not> length ?L < k"
        then have "k \<le> length ?L" by simp
        from FullRune_wellformed [OF wellformed_len_prefix [OF Some this]] nf
        show False by simp
      qed
      ultimately have "0 \<le> int n - int (length ?L)" by simp
      with pc Some show ?thesis by (simp add: chunkLoop_scan)
    qed
  qed
qed

subsection \<open>Unicode white space\<close>

text \<open>\<^verbatim>\<open>unicode.IsSpace\<close> answers true on exactly the 25 code points that carry the Unicode
  property White_Space.\<close>

lemma rune_order:
  fixes r :: rune
  shows "(r \<le> numeral k) = (unat r \<le> unat (numeral k :: rune))"
    and "(numeral k \<le> r) = (unat (numeral k :: rune) \<le> unat r)"
    and "(r = numeral k) = (unat r = unat (numeral k :: rune))"
  by (simp_all add: word_le_nat_alt word_unat_eq_iff)

lemma IsSpace_White_Space:
  "IsSpace u = (u \<in> {0x09, 0x0A, 0x0B, 0x0C, 0x0D, 0x20, 0x85, 0xA0, 0x1680,
       0x2000, 0x2001, 0x2002, 0x2003, 0x2004, 0x2005, 0x2006, 0x2007, 0x2008, 0x2009, 0x200A,
       0x2028, 0x2029, 0x202F, 0x205F, 0x3000})"
  apply (simp add: IsSpace_def MaxLatin1_def rune_order)
  apply arith
  done

section \<open>Claims\<close>

text \<open>C1. Splitting the bytes of a text file into chunks is meant to leave the triple
  (lines, words, chars) unchanged. It does not: the 65537-byte file made of 65534 letters
  \<^verbatim>\<open>a\<close>, the bytes E4 B8 and one more \<^verbatim>\<open>a\<close> is counted as (1, 1, 65537) when read in one
  chunk, and when \<^verbatim>\<open>Read\<close> fills the 64 KiB buffer first (the chunk ends with E4 B8) the
  program panics on the slice \<^verbatim>\<open>buf[-1:1]\<close> of the second chunk and reports nothing.\<close>

theorem C1_chunk_split_panics:
  "AnalyzeFile h path (plain_file [replicate 65534 0x61 @ [0xE4, 0xB8], [0x61]])
     = Inl (SliceBoundsOutOfRange (- 1) 1)
   \<and> (\<exists>r. AnalyzeFile h path (plain_file [replicate 65534 0x61 @ [0xE4, 0xB8] @ [0x61]]) = Inr r
          \<and> Kind r = ''text'' \<and> \<not> HasError r \<and> Lines r = 1 \<and> Words r = 1 \<and> Chars r = 65537)"
proof
  show "AnalyzeFile h path (plain_file [replicate 65534 0x61 @ [0xE4, 0xB8], [0x61]])
     = Inl (SliceBoundsOutOfRange (- 1) 1)"
    using sniff_big [of "[0xE4, 0xB8, 0x61]"]
    by (simp add: AnalyzeFile_def plain_file_def processChunk_first processChunk_second)
next
  show "\<exists>r. AnalyzeFile h path (plain_file [replicate 65534 0x61 @ [0xE4, 0xB8] @ [0x61]]) = Inr r
          \<and> Kind r = ''text'' \<and> \<not> HasError r \<and> Lines r = 1 \<and> Words r = 1 \<and> Chars r = 65537"
    using sniff_big [of "[0xE4, 0xB8, 0x61]"]
    by (simp add: AnalyzeFile_def plain_file_def processChunk_whole atEOF_def)
qed

text \<open>C2. The dispatcher is meant to deliver one record per path, whatever happens to a
  single path. It delivers nothing when a path makes \<^verbatim>\<open>AnalyzeFile\<close> panic: with the paths
  \<^verbatim>\<open>ok.txt\<close> and \<^verbatim>\<open>big.txt\<close> and \<open>jobs = 2\<close> the program can crash with the panic of
  claim C10 and without anything collected, no run reaches the end of the collecting
  loop, and no run stops in any other way than by the crash. (When no path panics, every
  run is finite, stops only after the collecting loop, and has then collected exactly the
  records of the paths: \<open>step_decreases\<close>, \<open>dispatcher_ends\<close>.)\<close>

theorem C2_one_panic_stops_the_batch:
  "(\<exists>s. reachable h two_files [''ok.txt'', ''big.txt''] 2 s
        \<and> crashed s = Some (SliceBoundsOutOfRange (- 1) 1) \<and> stats s = [])
   \<and> \<not> (\<exists>s. reachable h two_files [''ok.txt'', ''big.txt''] 2 s \<and> main s = Finished)
   \<and> \<not> (\<exists>s. reachable h two_files [''ok.txt'', ''big.txt''] 2 s \<and> crashed s = None
          \<and> \<not> (\<exists>s'. step h two_files [''ok.txt'', ''big.txt''] 2 s s'))"
proof (intro conjI)
  let ?F = "[''ok.txt'', ''big.txt'']"
  have "step h two_files ?F 2 running_two
          (running_two\<lparr>crashed := Some (SliceBoundsOutOfRange (- 1) 1)\<rparr>)"
    using step.panics [of running_two "[(''ok.txt'', Analyzing)]" "''big.txt''" "[]" h two_files
        "SliceBoundsOutOfRange (- 1) 1" ?F 2] big_file_panics [of h]
    by (simp add: running_two_def)
  with reachable_running_two [of h two_files]
  have "reachable h two_files ?F 2
          (running_two\<lparr>crashed := Some (SliceBoundsOutOfRange (- 1) 1)\<rparr>)"
    using reachable.next_step by blast
  then show "\<exists>s. reachable h two_files ?F 2 s
        \<and> crashed s = Some (SliceBoundsOutOfRange (- 1) 1) \<and> stats s = []"
    by (rule exI [where P = "\<lambda>s. reachable h two_files ?F 2 s
        \<and> crashed s = Some (SliceBoundsOutOfRange (- 1) 1) \<and> stats s = []", OF conjI])
       (simp add: running_two_def)
  have never: "main s \<noteq> Finished" if "reachable h two_files ?F 2 s" for s
    using that panic_never_finishes [of h "''big.txt''" two_files
        "SliceBoundsOutOfRange (- 1) 1" ?F 2 s] big_file_panics [of h]
    by simp
  then show "\<not> (\<exists>s. reachable h two_files ?F 2 s \<and> main s = Finished)"
    by blast
  show "\<not> (\<exists>s. reachable h two_files ?F 2 s \<and> crashed s = None
          \<and> \<not> (\<exists>s'. step h two_files ?F 2 s s'))"
    using dispatcher_progress [of h two_files ?F 2] never by force
qed



text \<open>C4. In every state the dispatcher can reach, the number of analyses in progress is
  at most \<open>jobs\<close>.\<close>

theorem C4_at_most_jobs_executing:
  "reachable h fs files jobs s \<Longrightarrow> executing s \<le> jobs"
  using sem_invariant [of h fs files jobs s] executing_le_workers [of s] by simp

theorem C4_witness:
  "reachable h0 one_file [''a.txt''] 1 running_one \<and> executing running_one = 1
   \<and> executing running_one \<le> 1"
  using C4_at_most_jobs_executing [OF reachable_running_one [of h0 one_file]]
    reachable_running_one [of h0 one_file]
  by (simp add: executing_def running_one_def)

text \<open>C5. For a file of size above 0 that can be opened, the classifier looks only at the
  sniff window \<open>w\<close>: the first \<open>min(size, 8192)\<close> bytes \<^verbatim>\<open>ReadAt\<close> delivers from offset 0, so
  at most 8192 bytes and at most the file size. The file is reported binary, with counts
  0, 0, 0 and no error, exactly when \<open>w\<close> holds a NUL byte or an invalid sequence that is
  complete within \<open>w\<close>; otherwise every record sent for it is a text record. In particular,
  when \<open>w\<close> is free of NUL and made of well-formed sequences followed by the beginning of
  one, cut off by the end of the window, the file is not binary, whatever follows the
  window.\<close>

theorem C5_binary_iff_nul_or_invalid:
  assumes "stat_answer f = Inr info" and "open_answer f = None" and "fi_Size info > 0"
  shows "let w = take (nat (min (fi_Size info) 8192)) (readat_bytes f) in
     length w \<le> 8192 \<and> int (length w) \<le> fi_Size info
     \<and> (if 0 \<in> set w \<or> invalid_sequence w
         then \<exists>r. AnalyzeFile h path f = Inr r \<and> Kind r = ''binary'' \<and> \<not> HasError r
                \<and> Lines r = 0 \<and> Words r = 0 \<and> Chars r = 0
         else \<forall>r. AnalyzeFile h path f = Inr r \<longrightarrow> Kind r = ''text'')
     \<and> (\<forall>s t. w = s @ t \<and> 0 \<notin> set w \<and> wellformed s \<and> truncated t
           \<longrightarrow> \<not> invalid_sequence w
               \<and> (\<forall>r. AnalyzeFile h path f = Inr r \<longrightarrow> Kind r = ''text''))"
proof -
  define w where "w = take (nat (min (fi_Size info) 8192)) (readat_bytes f)"
  have len: "length w \<le> 8192" "int (length w) \<le> fi_Size info"
    using assms(3) by (simp_all add: w_def)
  have sw: "sniffWindow (fi_Size info) (readat_bytes f) = w"
    by (simp add: sniffWindow_def sniffSize_def w_def)
  have sb: "sniffedBinary (fi_Size info) (readat_bytes f) = (0 \<in> set w \<or> invalid_sequence w)"
    using assms(3) invalid_sequence_Nil
    by (cases "w = []") (auto simp: sniffedBinary_def isBin_spec sw)
  have cls: "if 0 \<in> set w \<or> invalid_sequence w
         then \<exists>r. AnalyzeFile h path f = Inr r \<and> Kind r = ''binary'' \<and> \<not> HasError r
                \<and> Lines r = 0 \<and> Words r = 0 \<and> Chars r = 0
         else \<forall>r. AnalyzeFile h path f = Inr r \<longrightarrow> Kind r = ''text''"
    using assms(1,2) sb
    by (auto simp: AnalyzeFile_def Let_def split: sum.splits)
  have cut: "\<not> invalid_sequence w
               \<and> (\<forall>r. AnalyzeFile h path f = Inr r \<longrightarrow> Kind r = ''text'')"
    if "w = s @ t" "0 \<notin> set w" "wellformed s" "truncated t" for s t
  proof -
    from that have ni: "\<not> invalid_sequence w"
      by (simp add: invalid_sequence_after_wellformed truncated_not_invalid)
    with that(2) cls show ?thesis by simp
  qed
  from len cls cut show ?thesis
    unfolding Let_def w_def [symmetric] by blast
qed

theorem C5_witness:
  "(\<exists>r. AnalyzeFile h0 ''a.bin'' (plain_file [[0x61, 0x61, 0x61, 0x61, 0x61, 0x61, 0x00]]) = Inr r
        \<and> Kind r = ''binary'' \<and> Lines r = 0 \<and> Words r = 0 \<and> Chars r = 0)
   \<and> (\<exists>r. AnalyzeFile h0 ''b.bin'' (plain_file [[0x61, 0xC0, 0x62]]) = Inr r
        \<and> Kind r = ''binary'' \<and> Lines r = 0 \<and> Words r = 0 \<and> Chars r = 0)
   \<and> (\<exists>r. AnalyzeFile h0 ''c.bin'' (plain_file [replicate 8191 0x61 @ [0x00, 0x61]]) = Inr r
        \<and> Kind r = ''binary'' \<and> Lines r = 0 \<and> Words r = 0 \<and> Chars r = 0)
   \<and> (\<exists>r. AnalyzeFile h0 ''d.txt'' (plain_file [replicate 8192 0x61 @ [0x00]]) = Inr r
        \<and> Kind r = ''text'' \<and> Chars r = 8193)
   \<and> (\<exists>r. AnalyzeFile h0 ''e.txt'' (plain_file [replicate 8191 0x61 @ [0xE4, 0x61]]) = Inr r
        \<and> Kind r = ''text'' \<and> Chars r = 8193)
   \<and> (\<exists>r. AnalyzeFile h0 ''f.txt'' (plain_file [straddling]) = Inr r
        \<and> Kind r = ''text'' \<and> Chars r = 8192)
   \<and> (\<exists>r. AnalyzeFile h0 ''g.txt'' grown_file = Inr r \<and> Kind r = ''text'' \<and> Chars r = 3)"
proof (intro conjI)
  let ?i = "\<lambda>n. \<lparr>fi_Size = n, fi_ModTime = ''2024-01-01 00:00:00'', fi_ModUnix = 1704067200\<rparr>"
  from C5_binary_iff_nul_or_invalid [of "plain_file [[0x61, 0x61, 0x61, 0x61, 0x61, 0x61, 0x00]]" "?i 7" h0 "''a.bin''"]
  show "\<exists>r. AnalyzeFile h0 ''a.bin'' (plain_file [[0x61, 0x61, 0x61, 0x61, 0x61, 0x61, 0x00]]) = Inr r
        \<and> Kind r = ''binary'' \<and> Lines r = 0 \<and> Words r = 0 \<and> Chars r = 0"
    by (auto simp: plain_file_def Let_def)
  from invalid_a_C0_b C5_binary_iff_nul_or_invalid [of "plain_file [[0x61, 0xC0, 0x62]]" "?i 3" h0 "''b.bin''"]
  show "\<exists>r. AnalyzeFile h0 ''b.bin'' (plain_file [[0x61, 0xC0, 0x62]]) = Inr r
        \<and> Kind r = ''binary'' \<and> Lines r = 0 \<and> Words r = 0 \<and> Chars r = 0"
    by (auto simp: plain_file_def Let_def)
  from C5_binary_iff_nul_or_invalid [of "plain_file [replicate 8191 0x61 @ [0x00, 0x61]]" "?i 8193" h0 "''c.bin''"]
  show "\<exists>r. AnalyzeFile h0 ''c.bin'' (plain_file [replicate 8191 0x61 @ [0x00, 0x61]]) = Inr r
        \<and> Kind r = ''binary'' \<and> Lines r = 0 \<and> Words r = 0 \<and> Chars r = 0"
    by (auto simp: plain_file_def Let_def)
next
  let ?i = "\<lambda>n. \<lparr>fi_Size = n, fi_ModTime = ''2024-01-01 00:00:00'', fi_ModUnix = 1704067200\<rparr>"
  let ?f = "plain_file [replicate 8192 0x61 @ [0x00]]"
  from C5_binary_iff_nul_or_invalid [of ?f "?i 8193" h0 "''d.txt''"] not_invalid_replicate_a [of 8192]
  have istext: "\<forall>r. AnalyzeFile h0 ''d.txt'' ?f = Inr r \<longrightarrow> Kind r = ''text''"
    by (simp add: plain_file_def Let_def)
  have "\<not> sniffedBinary 8193 (replicate 8192 0x61 @ [0x00])"
    using isBin_replicate_a [of 8192] by (simp add: sniffedBinary_def sniffWindow_def sniffSize_def)
  then obtain r where "AnalyzeFile h0 ''d.txt'' ?f = Inr r" "Chars r = 8193"
    using readLoop_nul_beyond by (simp add: AnalyzeFile_def plain_file_def atEOF_def)
  with istext show "\<exists>r. AnalyzeFile h0 ''d.txt'' ?f = Inr r \<and> Kind r = ''text'' \<and> Chars r = 8193"
    by blast
next
  let ?i = "\<lambda>n. \<lparr>fi_Size = n, fi_ModTime = ''2024-01-01 00:00:00'', fi_ModUnix = 1704067200\<rparr>"
  let ?f = "plain_file [replicate 8191 0x61 @ [0xE4, 0x61]]"
  let ?w = "replicate 8191 0x61 @ [0xE4 :: byte]"
  have tr: "truncated [0xE4]" by (simp add: truncated_def)
  from C5_binary_iff_nul_or_invalid [of ?f "?i 8193" h0 "''e.txt''"]
  have "\<forall>s t. ?w = s @ t \<and> 0 \<notin> set ?w \<and> wellformed s \<and> truncated t
           \<longrightarrow> \<not> invalid_sequence ?w
               \<and> (\<forall>r. AnalyzeFile h0 ''e.txt'' ?f = Inr r \<longrightarrow> Kind r = ''text'')"
    by (simp add: plain_file_def Let_def)
  with tr wellformed_replicate_a [of 8191]
  have ni: "\<not> invalid_sequence ?w"
    and istext: "\<forall>r. AnalyzeFile h0 ''e.txt'' ?f = Inr r \<longrightarrow> Kind r = ''text''"
    by auto
  have "sniffedBinary 8193 (replicate 8191 0x61 @ [0xE4, 0x61]) = (0 \<in> set ?w \<or> invalid_sequence ?w)"
    by (simp add: sniffedBinary_def isBin_spec sniffWindow_def sniffSize_def)
  with ni have "\<not> sniffedBinary 8193 (replicate 8191 0x61 @ [0xE4, 0x61])" by simp
  then obtain r where "AnalyzeFile h0 ''e.txt'' ?f = Inr r" "Chars r = 8193"
    using readLoop_cut_then_invalid by (simp add: AnalyzeFile_def plain_file_def atEOF_def)
  with istext show "\<exists>r. AnalyzeFile h0 ''e.txt'' ?f = Inr r \<and> Kind r = ''text'' \<and> Chars r = 8193"
    by blast
next
  let ?i = "\<lambda>n. \<lparr>fi_Size = n, fi_ModTime = ''2024-01-01 00:00:00'', fi_ModUnix = 1704067200\<rparr>"
  let ?f = "plain_file [straddling]"
  let ?w = "replicate 8191 0x61 @ [0xE4 :: byte]"
  have tr: "truncated [0xE4]" by (simp add: truncated_def)
  from C5_binary_iff_nul_or_invalid [of ?f "?i 8194" h0 "''f.txt''"]
  have "\<forall>s t. ?w = s @ t \<and> 0 \<notin> set ?w \<and> wellformed s \<and> truncated t
           \<longrightarrow> \<not> invalid_sequence ?w
               \<and> (\<forall>r. AnalyzeFile h0 ''f.txt'' ?f = Inr r \<longrightarrow> Kind r = ''text'')"
    by (simp add: plain_file_def straddling_def Let_def)
  with tr wellformed_replicate_a [of 8191]
  have ni: "\<not> invalid_sequence ?w"
    and istext: "\<forall>r. AnalyzeFile h0 ''f.txt'' ?f = Inr r \<longrightarrow> Kind r = ''text''"
    by auto
  have "sniffedBinary 8194 straddling = (0 \<in> set ?w \<or> invalid_sequence ?w)"
    by (simp add: sniffedBinary_def isBin_spec sniffWindow_def sniffSize_def straddling_def)
  with ni have "\<not> sniffedBinary 8194 straddling" by simp
  then obtain r where "AnalyzeFile h0 ''f.txt'' ?f = Inr r" "Chars r = 8192"
    using readLoop_straddling
    by (simp add: AnalyzeFile_def plain_file_def atEOF_def straddling_def)
  with istext show "\<exists>r. AnalyzeFile h0 ''f.txt'' ?f = Inr r \<and> Kind r = ''text'' \<and> Chars r = 8192"
    by blast
next
  let ?i = "\<lambda>n. \<lparr>fi_Size = n, fi_ModTime = ''2024-01-01 00:00:00'', fi_ModUnix = 1704067200\<rparr>"
  have ni: "\<not> invalid_sequence [0x61, 0x62]"
    using isBin_ascii [of "[0x61, 0x62]"] by (simp add: isBin_spec)
  from C5_binary_iff_nul_or_invalid [of grown_file "?i 2" h0 "''g.txt''"] ni
  have istext: "\<forall>r. AnalyzeFile h0 ''g.txt'' grown_file = Inr r \<longrightarrow> Kind r = ''text''"
    by (simp add: grown_file_def Let_def)
  have "\<not> sniffedBinary 2 [0x61, 0x62, 0x00]"
    using isBin_ascii [of "[0x61, 0x62]"] by (simp add: sniffedBinary_def sniffWindow_def sniffSize_def)
  then obtain r where "AnalyzeFile h0 ''g.txt'' grown_file = Inr r" "Chars r = 3"
    using readLoop_grown by (simp add: AnalyzeFile_def grown_file_def atEOF_def)
  with istext show "\<exists>r. AnalyzeFile h0 ''g.txt'' grown_file = Inr r \<and> Kind r = ''text'' \<and> Chars r = 3"
    by blast
qed

text \<open>C6. When the read loop of a text file ends with bytes of an incomplete encoding
  still carried, they count as one character, as a non-space (a word starts unless one was
  running), the last rune is then not a newline (so the final line is counted), and the
  record stays a text record without error.\<close>

theorem C6_trailing_carry_is_one_char:
  assumes "stat_answer f = Inr info" and "open_answer f = None"
    and "\<not> sniffedBinary (fi_Size info) (readat_bytes f)"
    and "readLoop (read_answers f) counter0 = Inr (Inr st)"
    and "leftover st \<noteq> []"
  shows "\<exists>r. AnalyzeFile h path f = Inr r \<and> Kind r = ''text'' \<and> \<not> HasError r
           \<and> Chars r = chars st + 1
           \<and> Words r = (if inWord st then words st else words st + 1)
           \<and> Lines r = lines st + 1
           \<and> inWord (atEOF st) \<and> \<not> lastWasNewline (atEOF st)"
  using assms readLoop_chars0 [OF assms(4)]
  by (simp add: AnalyzeFile_def atEOF_def Let_def)

theorem C6_witness:
  "\<exists>r. AnalyzeFile h0 ''t.txt'' (plain_file [[0x61, 0xE4, 0xB8]]) = Inr r \<and> Kind r = ''text''
        \<and> \<not> HasError r \<and> Chars r = 2 \<and> Words r = 1 \<and> Lines r = 1"
proof -
  let ?f = "plain_file [[0x61, 0xE4, 0xB8]]"
  let ?st = "\<lparr>lines = 0, words = 1, chars = 1, inWord = True, lastWasNewline = False,
                 leftover = [0xE4, 0xB8]\<rparr>"
  have 1: "stat_answer ?f = Inr \<lparr>fi_Size = 3, fi_ModTime = ''2024-01-01 00:00:00'',
              fi_ModUnix = 1704067200\<rparr>"
    and 2: "open_answer ?f = None"
    and 3: "readat_bytes ?f = [0x61, 0xE4, 0xB8]"
    and 4: "read_answers ?f = [([0x61, 0xE4, 0xB8], ErrNil), ([], EOF)]"
    by (simp_all add: plain_file_def)
  have 5: "\<not> sniffedBinary (fi_Size \<lparr>fi_Size = 3, fi_ModTime = ''2024-01-01 00:00:00'',
              fi_ModUnix = 1704067200\<rparr>) (readat_bytes ?f)"
    using not_binary_a_E4_B8 by (simp add: 3)
  have 6: "readLoop (read_answers ?f) counter0 = Inr (Inr ?st)"
    using readLoop_a_E4_B8 by (simp only: 4)
  have 7: "leftover ?st \<noteq> []" by simp
  from C6_trailing_carry_is_one_char [OF 1 2 5 6 7, of h0 "''t.txt''"]
  show ?thesis by auto
qed

text \<open>C7. After the input is consumed, \<open>lines\<close> is incremented once more exactly when
  \<open>chars > 0\<close> and the last counted rune was not a newline; without carried bytes these
  are the values the loop left. The file \<^verbatim>\<open>"\n"\<close> yields (1, 0, 1) and the file
  \<^verbatim>\<open>"a b\nc"\<close> yields (2, 3, 5).\<close>

theorem C7_final_line:
  "lines (atEOF st)
     = (if chars (atEOF st) > 0 \<and> \<not> lastWasNewline (atEOF st) then lines st + 1 else lines st)
   \<and> lines (atEOF (st\<lparr>leftover := []\<rparr>))
     = (if chars st > 0 \<and> \<not> lastWasNewline st then lines st + 1 else lines st)
   \<and> (\<exists>r. AnalyzeFile h path (plain_file [[0x0A]]) = Inr r \<and> Kind r = ''text'' \<and> \<not> HasError r
          \<and> (Lines r, Words r, Chars r) = (1, 0, 1))
   \<and> (\<exists>r. AnalyzeFile h path (plain_file [[0x61, 0x20, 0x62, 0x0A, 0x63]]) = Inr r
          \<and> Kind r = ''text'' \<and> \<not> HasError r \<and> (Lines r, Words r, Chars r) = (2, 3, 5))"
proof (intro conjI)
  show "lines (atEOF st)
     = (if chars (atEOF st) > 0 \<and> \<not> lastWasNewline (atEOF st) then lines st + 1 else lines st)"
    by (simp add: atEOF_def Let_def)
  show "lines (atEOF (st\<lparr>leftover := []\<rparr>))
     = (if chars st > 0 \<and> \<not> lastWasNewline st then lines st + 1 else lines st)"
    by (simp add: atEOF_def Let_def)
  have nb1: "\<not> sniffedBinary 1 [0x0A]"
    using isBin_ascii [of "[0x0A]"] by (simp add: sniffedBinary_def sniffWindow_def sniffSize_def)
  show "\<exists>r. AnalyzeFile h path (plain_file [[0x0A]]) = Inr r \<and> Kind r = ''text'' \<and> \<not> HasError r
          \<and> (Lines r, Words r, Chars r) = (1, 0, 1)"
    using nb1
    by (simp add: AnalyzeFile_def plain_file_def processChunk_def counter0_def chunkLoop_scan
        scanBytes_ascii scanBytes_Nil countRune_def atEOF_def)
  have nb2: "\<not> sniffedBinary 5 [0x61, 0x20, 0x62, 0x0A, 0x63]"
    using isBin_ascii [of "[0x61, 0x20, 0x62, 0x0A, 0x63]"]
    by (simp add: sniffedBinary_def sniffWindow_def sniffSize_def)
  show "\<exists>r. AnalyzeFile h path (plain_file [[0x61, 0x20, 0x62, 0x0A, 0x63]]) = Inr r
          \<and> Kind r = ''text'' \<and> \<not> HasError r \<and> (Lines r, Words r, Chars r) = (2, 3, 5)"
    using nb2
    by (simp add: AnalyzeFile_def plain_file_def processChunk_def counter0_def chunkLoop_scan
        scanBytes_ascii scanBytes_Nil countRune_def atEOF_def IsSpace_def MaxLatin1_def)
qed

text \<open>C8. For a rune other than newline, \<open>words\<close> is incremented exactly when the rune is
  not white space and no word was running; afterwards a word is running exactly when the
  rune is not white space, so a second non-space rune in a row never counts again. White
  space is judged by \<^verbatim>\<open>unicode.IsSpace\<close>, which holds of a rune exactly when it is one of the
  25 code points with the Unicode property White_Space: U+0009 to U+000D, U+0020, U+0085,
  U+00A0, U+1680, U+2000 to U+200A, U+2028, U+2029, U+202F, U+205F and U+3000; every other
  rune, the zero-width space U+200B and the control U+001F among them, is a word
  character.\<close>

theorem C8_word_transitions:
  assumes "r \<noteq> 0x0A"
  shows "let White_Space = {0x09, 0x0A, 0x0B, 0x0C, 0x0D, 0x20, 0x85, 0xA0, 0x1680,
       0x2000, 0x2001, 0x2002, 0x2003, 0x2004, 0x2005, 0x2006, 0x2007, 0x2008, 0x2009, 0x200A,
       0x2028, 0x2029, 0x202F, 0x205F, 0x3000 :: rune} in
     IsSpace u = (u \<in> White_Space)
     \<and> words (countRune st r)
         = (if r \<notin> White_Space \<and> \<not> inWord st then words st + 1 else words st)
     \<and> inWord (countRune st r) = (r \<notin> White_Space)
     \<and> (r \<notin> White_Space \<and> r' \<notin> White_Space \<longrightarrow>
          words (countRune (countRune st r) r') = words (countRune st r))"
proof -
  have nl: "IsSpace 0x0A" by (simp add: IsSpace_def MaxLatin1_def)
  have "words (countRune st r) = (if \<not> IsSpace r \<and> \<not> inWord st then words st + 1 else words st)"
    and "inWord (countRune st r) = (\<not> IsSpace r)"
    and "\<not> IsSpace r \<and> \<not> IsSpace r' \<longrightarrow>
          words (countRune (countRune st r) r') = words (countRune st r)"
    using assms nl by (auto simp: countRune_def Let_def)
  then show ?thesis
    unfolding Let_def
    by (simp only: IsSpace_White_Space [symmetric] simp_thms)
qed

theorem C8_witness:
  "words (countRune counter0 0x61) = 1 \<and> inWord (countRune counter0 0x61)
   \<and> words (countRune (countRune counter0 0x61) 0x62) = 1
   \<and> words (countRune (countRune counter0 0x61) 0x0D) = 1
   \<and> \<not> inWord (countRune (countRune counter0 0x61) 0x0D)
   \<and> \<not> inWord (countRune (countRune counter0 0x61) 0x2029)
   \<and> \<not> inWord (countRune (countRune counter0 0x61) 0x3000)
   \<and> words (countRune (countRune (countRune counter0 0x61) 0x3000) 0x62) = 2
   \<and> inWord (countRune counter0 0x200B) \<and> words (countRune counter0 0x200B) = 1
   \<and> inWord (countRune counter0 0x1F) \<and> IsSpace 0x2004 \<and> \<not> IsSpace 0x200B"
  using C8_word_transitions [of "0x61" "0x2004" counter0 "0x62"]
    C8_word_transitions [of "0x0D" "0x200B" "countRune counter0 0x61" "0x62"]
    C8_word_transitions [of "0x2029" "0x200B" "countRune counter0 0x61" "0x62"]
    C8_word_transitions [of "0x3000" "0x200B" "countRune counter0 0x61" "0x62"]
    C8_word_transitions [of "0x62" "0x200B" "countRune (countRune counter0 0x61) 0x3000" "0x62"]
    C8_word_transitions [of "0x200B" "0x200B" counter0 "0x62"]
    C8_word_transitions [of "0x1F" "0x200B" counter0 "0x62"]
  by (simp add: Let_def counter0_def)

text \<open>C9. When \<^verbatim>\<open>os.Stat\<close> fails, or \<^verbatim>\<open>os.Open\<close> fails, or a \<^verbatim>\<open>Read\<close> of the counting
  loop answers an error (the loop having come that far), the record sent carries the error
  and the counts 0, 0, 0, whatever was counted before the failing read.\<close>

theorem C9_failure_record_has_no_counts:
  assumes "stat_answer f = Inl e
     \<or> (\<exists>info. stat_answer f = Inr info \<and> open_answer f = Some e)
     \<or> (\<exists>info pre c post st. stat_answer f = Inr info \<and> open_answer f = None
            \<and> \<not> sniffedBinary (fi_Size info) (readat_bytes f)
            \<and> read_answers f = pre @ (c, ErrIO e) # post
            \<and> list_all (\<lambda>a. snd a = ErrNil) pre
            \<and> readLoop (pre @ [(c, EOF)]) counter0 = Inr (Inr st))"
  shows "\<exists>r. AnalyzeFile h path f = Inr r \<and> HasError r \<and> ErrorText r = e
           \<and> Lines r = 0 \<and> Words r = 0 \<and> Chars r = 0"
  using assms
proof (elim disjE exE conjE)
  assume "stat_answer f = Inl e"
  then show ?thesis by (simp add: AnalyzeFile_def)
next
  fix info
  assume "stat_answer f = Inr info" "open_answer f = Some e"
  then show ?thesis by (simp add: AnalyzeFile_def)
next
  fix info pre c post st
  assume a: "stat_answer f = Inr info" "open_answer f = None"
    "\<not> sniffedBinary (fi_Size info) (readat_bytes f)"
    "read_answers f = pre @ (c, ErrIO e) # post"
    and b: "list_all (\<lambda>a. snd a = ErrNil) pre"
    "readLoop (pre @ [(c, EOF)]) counter0 = Inr (Inr st)"
  from readLoop_failing_read [OF b] a(4)
  have "readLoop (read_answers f) counter0 = Inr (Inl e)" by simp
  with a show ?thesis by (simp add: AnalyzeFile_def)
qed

theorem C9_witness:
  "readLoop [([0x61, 0x0A], ErrNil), ([], EOF)] counter0
     = Inr (Inr \<lparr>lines = 1, words = 1, chars = 2, inWord = False, lastWasNewline = True,
                 leftover = []\<rparr>)
   \<and> (\<exists>r. AnalyzeFile h0 ''t.txt'' failing_file = Inr r \<and> HasError r
          \<and> ErrorText r = ''read t.txt: input/output error''
          \<and> Lines r = 0 \<and> Words r = 0 \<and> Chars r = 0)"
proof
  let ?st = "\<lparr>lines = 1, words = 1, chars = 2, inWord = False, lastWasNewline = True,
                 leftover = []\<rparr>"
  show rl: "readLoop [([0x61, 0x0A], ErrNil), ([], EOF)] counter0 = Inr (Inr ?st)"
    by (simp add: processChunk_def counter0_def chunkLoop_scan scanBytes_ascii scanBytes_Nil
        countRune_def IsSpace_def MaxLatin1_def)
  have nb: "\<not> sniffedBinary 4 [0x61, 0x0A, 0x62, 0x0A]"
    using isBin_ascii [of "[0x61, 0x0A, 0x62, 0x0A]"]
    by (simp add: sniffedBinary_def sniffWindow_def sniffSize_def)
  have "\<exists>info pre c post st. stat_answer failing_file = Inr info
            \<and> open_answer failing_file = None
            \<and> \<not> sniffedBinary (fi_Size info) (readat_bytes failing_file)
            \<and> read_answers failing_file
                = pre @ (c, ErrIO ''read t.txt: input/output error'') # post
            \<and> list_all (\<lambda>a. snd a = ErrNil) pre
            \<and> readLoop (pre @ [(c, EOF)]) counter0 = Inr (Inr st)"
    apply (rule exI [of _ "\<lparr>fi_Size = 4, fi_ModTime = ''2024-01-01 00:00:00'',
                          fi_ModUnix = 1704067200\<rparr>"])
    apply (rule exI [of _ "[([0x61, 0x0A], ErrNil)]"])
    apply (rule exI [of _ "[]"])
    apply (rule exI [of _ "[]"])
    apply (rule exI [of _ ?st])
    using rl nb apply (simp add: failing_file_def)
    done
  then show "\<exists>r. AnalyzeFile h0 ''t.txt'' failing_file = Inr r \<and> HasError r
          \<and> ErrorText r = ''read t.txt: input/output error''
          \<and> Lines r = 0 \<and> Words r = 0 \<and> Chars r = 0"
    using C9_failure_record_has_no_counts [of failing_file
        "''read t.txt: input/output error''" h0 "''t.txt''"]
    by blast
qed

text \<open>C10. The index into the chunk is meant to stay between 0 and the chunk length. With
  two bytes E4 B8 carried from a 65536-byte chunk and the next chunk starting with the
  letter \<^verbatim>\<open>a\<close>, the completed sequence decodes as an invalid rune of width 1, the index
  becomes \<^verbatim>\<open>size - leftN = -1\<close> and the slice \<^verbatim>\<open>buf[-1:1]\<close> panics.\<close>

theorem C10_negative_index:
  "readLoop [(replicate 65534 0x61 @ [0xE4, 0xB8], ErrNil)] counter0 = Inr (Inr carry_state)
   \<and> processChunk [0x61] carry_state = Inl (SliceBoundsOutOfRange (- 1) 1)"
  by (simp add: processChunk_first processChunk_second)

end
